theory Spec2Isabelle
  imports Complex_Main
begin

section \<open>Coverage path planning: data model\<close>

text \<open>
  The Python sources compute with \<^verbatim>\<open>float\<close>. A float is read as a real number: sums,
  products, comparisons and \<^verbatim>\<open>math.hypot\<close> are exact, and rounding, overflow and NaN
  are outside the model. The one exception is the last section, where the turn-penalty
  adjustment is read with rounded operations, because the property studied there depends on
  the rounding.

  Definitions carry the names of the source functions. A few local variables are renamed
  because their names are constants of the logic: \<^verbatim>\<open>mask\<close> is \<open>msk\<close>, \<^verbatim>\<open>path\<close> is
  \<open>pth\<close>, \<^verbatim>\<open>inter\<close> is \<open>shared_geom\<close>; \<^verbatim>\<open>_greedy_partition\<close> is
  \<open>greedy_partition_rec\<close>.
\<close>

type_synonym Point2D = "real \<times> real"

text \<open>\<^verbatim>\<open>CellID = Tuple[int, int]\<close>, read (row, col).\<close>

type_synonym CellID = "int \<times> int"

text \<open>The frozen dataclass \<^verbatim>\<open>CandidateOption\<close> of \<^verbatim>\<open>utils/helpers.py\<close>.\<close>

record CandidateOption =
  entry :: Point2D
  exit :: Point2D
  cost :: real
  turns :: int
  path :: "Point2D list option"

section \<open>Global combiner (\<^verbatim>\<open>global_optimizer.py\<close>)\<close>

subsection \<open>Turn-penalty adjustment\<close>

text \<open>
  \<^verbatim>\<open>adjust_candidate_options(candidate_options, penalty=10, tol=1e-7)\<close>: the two loops
  are the two maps; \<^verbatim>\<open>min(same_cost_turns)\<close> is \<^const>\<open>min_list\<close>.
\<close>

definition adjust_candidate_options ::
  "CandidateOption list list \<Rightarrow> real \<Rightarrow> real \<Rightarrow> CandidateOption list list" where
  "adjust_candidate_options candidate_options penalty tol =
     map (\<lambda>partition.
       map (\<lambda>cand.
         let same_cost_turns = map turns (filter (\<lambda>c. \<bar>cost c - cost cand\<bar> < tol) partition);
             min_turns = (if same_cost_turns \<noteq> [] then min_list same_cost_turns else turns cand);
             extra = penalty * of_int (max 0 (turns cand - min_turns))
         in \<lparr>entry = entry cand, exit = exit cand, cost = cost cand + extra,
             turns = turns cand, path = path cand\<rparr>) partition) candidate_options"

subsection \<open>Held-Karp dynamic program\<close>

text \<open>
  The pair \<^verbatim>\<open>(best_cost, best_path)\<close> of the source starts as
  \<^verbatim>\<open>(float('inf'), None)\<close> and is only ever overwritten by a finite total together
  with a list, so it has two shapes: \<open>NoTour\<close> is the pair \<^verbatim>\<open>(inf, None)\<close>,
  \<open>Tour c p\<close> the pair of a finite cost and a list of (partition, candidate) indices.
\<close>

datatype tour = NoTour | Tour real "(nat \<times> nat) list"

definition hypot :: "real \<Rightarrow> real \<Rightarrow> real" where
  "hypot a b = sqrt (a\<^sup>2 + b\<^sup>2)"

text \<open>
  The body shared by the two innermost loops: \<^verbatim>\<open>total = w + sub_cost\<close>, then
  \<^verbatim>\<open>if total < best_cost: best_cost, best_path = total, [(j, cand_idx)] + sub_path\<close>.
  With \<^verbatim>\<open>sub_cost = inf\<close> the total is \<^verbatim>\<open>inf\<close> and the comparison is false; with
  \<^verbatim>\<open>best_cost = inf\<close> every finite total is smaller.
\<close>

definition relax :: "real \<Rightarrow> nat \<times> nat \<Rightarrow> tour \<Rightarrow> tour \<Rightarrow> tour" where
  "relax w jk sub best =
     (case sub of
        NoTour \<Rightarrow> best
      | Tour sub_cost sub_path \<Rightarrow>
          (case best of
             NoTour \<Rightarrow> Tour (w + sub_cost) (jk # sub_path)
           | Tour best_cost best_path \<Rightarrow>
               if w + sub_cost < best_cost then Tour (w + sub_cost) (jk # sub_path) else best))"

definition conn_cost :: "CandidateOption \<Rightarrow> CandidateOption \<Rightarrow> real" where
  "conn_cost prev_cand cand =
     hypot (fst (exit prev_cand) - fst (entry cand)) (snd (exit prev_cand) - snd (entry cand))"

text \<open>
  The memoised inner function \<^verbatim>\<open>dp(mask, last_part, last_cand)\<close>; \<^verbatim>\<open>mask\<close> is a
  Python integer used as a bit set: \<^verbatim>\<open>(mask >> j) & 1\<close>, \<^verbatim>\<open>mask | (1 << j)\<close>,
  \<^verbatim>\<open>(1 << N) - 1\<close>. Memoisation does not change the value returned.
\<close>

lemma visited_bit: "(and (drop_bit j (m::nat)) 1 \<noteq> 0) = bit m j"
  by (simp add: bit_iff_odd_drop_bit and_one_eq mod_2_eq_odd)

lemma bit_or_push_bit_nat: "bit (or (m::nat) (push_bit j 1)) i = (bit m i \<or> i = j)"
  by (auto simp add: bit_or_iff bit_exp_iff)

lemma unvisited_shrinks:
  assumes "j < n" and "\<not> bit (m::nat) j"
  shows "card {i. i < n \<and> \<not> bit (or m (push_bit j 1)) i} < card {i. i < n \<and> \<not> bit m i}"
proof -
  have "{i. i < n \<and> \<not> bit (or m (push_bit j 1)) i} \<subset> {i. i < n \<and> \<not> bit m i}"
    using assms unfolding bit_or_push_bit_nat by blast
  then show ?thesis
    by (intro psubset_card_mono) simp_all
qed

function dp :: "CandidateOption list list \<Rightarrow> nat \<Rightarrow> nat \<Rightarrow> nat \<Rightarrow> tour" where
  "dp candidate_options msk last_part last_cand =
     (if msk = push_bit (length candidate_options) 1 - 1 then Tour 0 []
      else
        fold (\<lambda>j best.
                if and (drop_bit j msk) 1 \<noteq> 0 then best
                else fold (\<lambda>ic best.
                       relax (conn_cost (candidate_options ! last_part ! last_cand) (snd ic)
                                + cost (snd ic))
                             (j, fst ic)
                             (dp candidate_options (or msk (push_bit j 1)) j (fst ic))
                             best)
                     (enumerate 0 (candidate_options ! j)) best)
             [0..<length candidate_options] NoTour)"
  by pat_completeness auto
termination
  apply (relation "measure (\<lambda>(candidate_options, msk, last_part, last_cand).
                    card {j. j < length candidate_options \<and> \<not> bit msk j})")
   apply simp
  subgoal for candidate_options msk last_part last_cand j best ic
    using visited_bit [of j msk] unvisited_shrinks [of j "length candidate_options" msk]
    by auto
  done

declare dp.simps [simp del]

text \<open>
  \<^verbatim>\<open>held_karp(candidate_options)\<close>: the adjustment with \<^verbatim>\<open>penalty=1\<close> and the default
  \<^verbatim>\<open>tol=1e-7\<close>, then the loop over every starting pair \<^verbatim>\<open>(i, cand_idx)\<close> with
  \<^verbatim>\<open>total = cand.cost + cost_rest\<close>.
\<close>

definition held_karp :: "CandidateOption list list \<Rightarrow> tour" where
  "held_karp candidate_options0 =
     (let candidate_options = adjust_candidate_options candidate_options0 1 (1 / 10000000) in
      fold (\<lambda>i overall.
              fold (\<lambda>ic overall.
                      relax (cost (snd ic)) (i, fst ic)
                            (dp candidate_options (push_bit i 1) i (fst ic)) overall)
                   (enumerate 0 (candidate_options ! i)) overall)
           [0..<length candidate_options] NoTour)"

subsection \<open>Properties of the turn-penalty adjustment\<close>

lemma adjust_candidate_options_nth:
  assumes "p < length candidate_options" and "i < length (candidate_options ! p)"
  shows "adjust_candidate_options candidate_options penalty tol ! p ! i =
     (let partition = candidate_options ! p; cand = partition ! i;
          same_cost_turns = map turns (filter (\<lambda>c. \<bar>cost c - cost cand\<bar> < tol) partition);
          min_turns = (if same_cost_turns \<noteq> [] then min_list same_cost_turns else turns cand)
      in \<lparr>entry = entry cand, exit = exit cand,
          cost = cost cand + penalty * of_int (max 0 (turns cand - min_turns)),
          turns = turns cand, path = path cand\<rparr>)"
  using assms by (simp add: adjust_candidate_options_def Let_def)

lemma adjust_candidate_options_length:
  "length (adjust_candidate_options candidate_options penalty tol) = length candidate_options"
  "p < length candidate_options \<Longrightarrow>
     length (adjust_candidate_options candidate_options penalty tol ! p) = length (candidate_options ! p)"
  by (simp_all add: adjust_candidate_options_def)

lemma same_cost_turns_min:
  assumes "cand \<in> set part" and "0 < tol"
  shows "map turns (filter (\<lambda>c. \<bar>cost c - cost cand\<bar> < tol) part) \<noteq> []"
    and "min_list (map turns (filter (\<lambda>c. \<bar>cost c - cost cand\<bar> < tol) part))
           = Min {turns c |c. c \<in> set part \<and> \<bar>cost c - cost cand\<bar> < tol}"
    and "min_list (map turns (filter (\<lambda>c. \<bar>cost c - cost cand\<bar> < tol) part)) \<le> turns cand"
proof -
  let ?T = "map turns (filter (\<lambda>c. \<bar>cost c - cost cand\<bar> < tol) part)"
  have mem: "turns cand \<in> set ?T"
    using assms by auto
  then show ne: "?T \<noteq> []" by (metis empty_iff empty_set)
  have "set ?T = {turns c |c. c \<in> set part \<and> \<bar>cost c - cost cand\<bar> < tol}"
    by auto
  then show "min_list ?T = Min {turns c |c. c \<in> set part \<and> \<bar>cost c - cost cand\<bar> < tol}"
    using min_list_Min [OF ne] by simp
  show "min_list ?T \<le> turns cand"
    using min_list_Min [OF ne] mem by simp
qed

text \<open>Two candidates of one partition used in the examples: equal cost, different turns.\<close>

definition cand_straight :: CandidateOption where
  "cand_straight = \<lparr>entry = (0, 0), exit = (2, 0), cost = 2, turns = 0, path = None\<rparr>"

definition cand_zigzag :: CandidateOption where
  "cand_zigzag = \<lparr>entry = (0, 0), exit = (0, 2), cost = 2, turns = 3, path = None\<rparr>"

text \<open>
  Claim C10. \<^verbatim>\<open>adjust_candidate_options\<close> changes only the cost field: the output has
  the shape of the input, every output candidate keeps the entry, exit, turns and path of
  the input candidate, and its cost is the input cost plus \<open>penalty\<close> times
  \<open>max 0 (turns - t)\<close>, where \<open>t\<close> is the least turn count among the candidates of the
  same partition whose cost differs from this candidate's by less than \<open>tol\<close> (\<open>1e-7\<close> by
  default, any positive \<open>tol\<close> here). With a non-negative penalty the adjusted cost is never
  below the original cost.
\<close>

theorem adjust_candidate_options_frame:
  assumes "p < length candidate_options" and "i < length (candidate_options ! p)" and "0 < tol"
  shows "length (adjust_candidate_options candidate_options penalty tol) = length candidate_options
     \<and> length (adjust_candidate_options candidate_options penalty tol ! p) = length (candidate_options ! p)
     \<and> entry (adjust_candidate_options candidate_options penalty tol ! p ! i) = entry (candidate_options ! p ! i)
     \<and> exit (adjust_candidate_options candidate_options penalty tol ! p ! i) = exit (candidate_options ! p ! i)
     \<and> turns (adjust_candidate_options candidate_options penalty tol ! p ! i) = turns (candidate_options ! p ! i)
     \<and> path (adjust_candidate_options candidate_options penalty tol ! p ! i) = path (candidate_options ! p ! i)
     \<and> cost (adjust_candidate_options candidate_options penalty tol ! p ! i) =
         cost (candidate_options ! p ! i)
           + penalty * of_int (max 0 (turns (candidate_options ! p ! i)
               - Min {turns c |c. c \<in> set (candidate_options ! p)
                        \<and> \<bar>cost c - cost (candidate_options ! p ! i)\<bar> < tol}))
     \<and> (0 \<le> penalty \<longrightarrow>
          cost (candidate_options ! p ! i) \<le> cost (adjust_candidate_options candidate_options penalty tol ! p ! i))"
proof -
  have mem: "candidate_options ! p ! i \<in> set (candidate_options ! p)"
    using assms(2) by simp
  note m = same_cost_turns_min [OF mem assms(3)]
  have nth: "adjust_candidate_options candidate_options penalty tol ! p ! i =
      \<lparr>entry = entry (candidate_options ! p ! i), exit = exit (candidate_options ! p ! i),
       cost = cost (candidate_options ! p ! i) + penalty * of_int (max 0 (turns (candidate_options ! p ! i)
               - Min {turns c |c. c \<in> set (candidate_options ! p)
                        \<and> \<bar>cost c - cost (candidate_options ! p ! i)\<bar> < tol})),
       turns = turns (candidate_options ! p ! i), path = path (candidate_options ! p ! i)\<rparr>"
    using adjust_candidate_options_nth [OF assms(1,2), of penalty tol] m(1) m(2)
    by (simp add: Let_def)
  have "0 \<le> penalty \<Longrightarrow> 0 \<le> penalty * of_int (max 0 (turns (candidate_options ! p ! i)
               - Min {turns c |c. c \<in> set (candidate_options ! p)
                        \<and> \<bar>cost c - cost (candidate_options ! p ! i)\<bar> < tol}))"
    by (intro mult_nonneg_nonneg) simp_all
  then show ?thesis
    using adjust_candidate_options_length assms(1)
    by (simp add: nth)
qed

theorem adjust_candidate_options_frame_witness:
  "(1::nat) < length ([[cand_straight, cand_zigzag]] ! 0) \<and> (0::real) < 1 / 10000000 \<and> (0::real) \<le> 1
   \<and> turns (adjust_candidate_options [[cand_straight, cand_zigzag]] 1 (1 / 10000000) ! 0 ! 1) = 3
   \<and> path (adjust_candidate_options [[cand_straight, cand_zigzag]] 1 (1 / 10000000) ! 0 ! 1) = None
   \<and> cost cand_zigzag \<le> cost (adjust_candidate_options [[cand_straight, cand_zigzag]] 1 (1 / 10000000) ! 0 ! 1)"
proof -
  have h1: "(0::nat) < length [[cand_straight, cand_zigzag]]" by simp
  have h2: "(1::nat) < length ([[cand_straight, cand_zigzag]] ! 0)" by simp
  have h3: "(0::real) < 1 / 10000000" by simp
  show ?thesis
    using adjust_candidate_options_frame [OF h1 h2 h3, of 1] h2 h3
    by (simp add: cand_zigzag_def)
qed

subsection \<open>The combiner on an empty sequence of partitions\<close>

text \<open>
  Claim C2 says that \<^verbatim>\<open>held_karp\<close> on an empty sequence of partitions (\<open>N = 0\<close>) returns
  cost 0 and an empty chosen list. In the source the loop over starting pairs has no
  iteration for \<open>N = 0\<close>, so the initial pair \<^verbatim>\<open>(float('inf'), None)\<close> is returned.
\<close>

theorem held_karp_empty: "held_karp [] = NoTour"
  by (simp add: held_karp_def adjust_candidate_options_def)

subsection \<open>Optimality of the dynamic program\<close>

text \<open>
  The cost the claim speaks of, written from its words: a tour is a list of
  (partition, candidate) pairs in visit order; its cost is the first candidate's cost
  plus, for each consecutive pair, the connector from the previous exit to the next entry
  plus the next candidate's cost. \<open>chain_cost C prev t\<close> is the part after \<open>prev\<close>.
  \<open>selects C S t\<close>: the partitions of \<open>t\<close> are exactly those of \<open>S\<close>, each once, and every
  candidate index is in range; a valid tour visits every partition.
\<close>

fun chain_cost :: "CandidateOption list list \<Rightarrow> CandidateOption \<Rightarrow> (nat \<times> nat) list \<Rightarrow> real" where
  "chain_cost C prev [] = 0"
| "chain_cost C prev (jk # rest) =
     conn_cost prev (C ! fst jk ! snd jk) + cost (C ! fst jk ! snd jk)
       + chain_cost C (C ! fst jk ! snd jk) rest"

fun tour_cost :: "CandidateOption list list \<Rightarrow> (nat \<times> nat) list \<Rightarrow> real" where
  "tour_cost C [] = 0"
| "tour_cost C (ik # rest) = cost (C ! fst ik ! snd ik) + chain_cost C (C ! fst ik ! snd ik) rest"

definition selects :: "CandidateOption list list \<Rightarrow> nat set \<Rightarrow> (nat \<times> nat) list \<Rightarrow> bool" where
  "selects C S t =
     (distinct (map fst t) \<and> set (map fst t) = S \<and> list_all (\<lambda>jk. snd jk < length (C ! fst jk)) t)"

definition valid_tour :: "CandidateOption list list \<Rightarrow> (nat \<times> nat) list \<Rightarrow> bool" where
  "valid_tour C t = selects C {0..<length C} t"

lemma fold_relax_NoTour:
  "fold (\<lambda>x. relax (w x) (jk x) (sub x)) xs b = NoTour \<Longrightarrow>
     b = NoTour \<and> (\<forall>x\<in>set xs. sub x = NoTour)"
proof (induction xs arbitrary: b)
  case Nil
  then show ?case by simp
next
  case (Cons x xs)
  from Cons.prems have "fold (\<lambda>x. relax (w x) (jk x) (sub x)) xs (relax (w x) (jk x) (sub x) b) = NoTour"
    by simp
  from Cons.IH [OF this] have r: "relax (w x) (jk x) (sub x) b = NoTour"
    and rest: "\<forall>x\<in>set xs. sub x = NoTour" by auto
  from r have "b = NoTour \<and> sub x = NoTour"
    by (auto simp: relax_def split: tour.splits if_splits)
  with rest show ?case by simp
qed

lemma fold_relax_origin:
  "fold (\<lambda>x. relax (w x) (jk x) (sub x)) xs b = Tour c p \<Longrightarrow>
     b = Tour c p \<or> (\<exists>x\<in>set xs. \<exists>sc sp. sub x = Tour sc sp \<and> c = w x + sc \<and> p = jk x # sp)"
proof (induction xs arbitrary: b)
  case Nil
  then show ?case by simp
next
  case (Cons x xs)
  from Cons.prems have "fold (\<lambda>x. relax (w x) (jk x) (sub x)) xs (relax (w x) (jk x) (sub x) b) = Tour c p"
    by simp
  from Cons.IH [OF this] consider
      (here) "relax (w x) (jk x) (sub x) b = Tour c p"
    | (later) "\<exists>x\<in>set xs. \<exists>sc sp. sub x = Tour sc sp \<and> c = w x + sc \<and> p = jk x # sp"
    by blast
  then show ?case
  proof cases
    case here
    then have "b = Tour c p \<or> (\<exists>sc sp. sub x = Tour sc sp \<and> c = w x + sc \<and> p = jk x # sp)"
      by (auto simp: relax_def split: tour.splits if_splits)
    then show ?thesis by auto
  next
    case later
    then show ?thesis by auto
  qed
qed

lemma relax_le:
  "relax w jk sub b = Tour c p \<Longrightarrow>
     (\<forall>bc bp. b = Tour bc bp \<longrightarrow> c \<le> bc) \<and> (\<forall>sc sp. sub = Tour sc sp \<longrightarrow> c \<le> w + sc)"
  by (auto simp: relax_def split: tour.splits if_splits)

lemma fold_relax_lower:
  "fold (\<lambda>x. relax (w x) (jk x) (sub x)) xs b = Tour c p \<Longrightarrow>
     (\<forall>bc bp. b = Tour bc bp \<longrightarrow> c \<le> bc)
     \<and> (\<forall>x\<in>set xs. \<forall>sc sp. sub x = Tour sc sp \<longrightarrow> c \<le> w x + sc)"
proof (induction xs arbitrary: b)
  case Nil
  then show ?case by simp
next
  case (Cons x xs)
  let ?b' = "relax (w x) (jk x) (sub x) b"
  from Cons.prems have f: "fold (\<lambda>x. relax (w x) (jk x) (sub x)) xs ?b' = Tour c p"
    by simp
  note ih = Cons.IH [OF f]
  have ne: "?b' \<noteq> NoTour \<Longrightarrow> \<exists>c' p'. ?b' = Tour c' p'"
    by (cases ?b') auto
  show ?case
  proof (cases ?b')
    case NoTour
    then have "b = NoTour \<and> sub x = NoTour"
      by (auto simp: relax_def split: tour.splits if_splits)
    with ih show ?thesis by auto
  next
    case (Tour c' p')
    with ih have cc: "c \<le> c'" by simp
    from relax_le [OF Tour] have "(\<forall>bc bp. b = Tour bc bp \<longrightarrow> c' \<le> bc)"
      and "(\<forall>sc sp. sub x = Tour sc sp \<longrightarrow> c' \<le> w x + sc)" by auto
    with cc ih show ?thesis by fastforce
  qed
qed

lemma fold_nested_flat:
  "fold (\<lambda>j b. if skip j then b else fold (\<lambda>y. g (j, y)) (ys j) b) js b0
     = fold g (concat (map (\<lambda>j. if skip j then [] else map (Pair j) (ys j)) js)) b0"
  by (induction js arbitrary: b0) (simp_all add: fold_map comp_def)

text \<open>
  \<open>unvisited N m\<close> is the set of partitions whose bit is clear in the mask; \<open>moves C m\<close>
  lists, in loop order, the triples (partition, candidate index, candidate) that the two
  nested loops of \<^verbatim>\<open>dp\<close> go through.
\<close>

definition unvisited :: "nat \<Rightarrow> nat \<Rightarrow> nat set" where
  "unvisited N m = {j. j < N \<and> \<not> bit m j}"

definition moves :: "CandidateOption list list \<Rightarrow> nat \<Rightarrow> (nat \<times> nat \<times> CandidateOption) list" where
  "moves C m = concat (map (\<lambda>j. if and (drop_bit j m) 1 \<noteq> 0 then []
                                  else map (Pair j) (enumerate 0 (C ! j))) [0..<length C])"

lemma in_set_moves:
  "x \<in> set (moves C m) \<longleftrightarrow>
     fst x \<in> unvisited (length C) m \<and> fst (snd x) < length (C ! fst x)
       \<and> snd (snd x) = C ! fst x ! fst (snd x)"
proof (cases x)
  case (fields j k c)
  have "(j, k, c) \<in> set (moves C m)
        \<longleftrightarrow> (j < length C \<and> \<not> bit m j \<and> (k, c) \<in> set (enumerate 0 (C ! j)))"
    unfolding moves_def visited_bit by (auto split: if_splits)
  also have "\<dots> \<longleftrightarrow> (j \<in> unvisited (length C) m \<and> k < length (C ! j) \<and> c = C ! j ! k)"
    by (auto simp: unvisited_def in_set_enumerate_eq)
  finally show ?thesis
    unfolding fields by simp
qed

lemma full_mask_iff:
  assumes "\<forall>j. bit m j \<longrightarrow> j < N"
  shows "(m = push_bit N 1 - 1) = (unvisited N m = {})"
proof -
  have "push_bit N (1::nat) - 1 = mask N"
    by (simp add: mask_eq_exp_minus_1)
  moreover have "(m = mask N) = (\<forall>j. bit m j = (j < N))"
    by (auto simp: bit_eq_iff bit_mask_iff)
  ultimately show ?thesis
    using assms by (auto simp: unvisited_def)
qed

lemma dp_unfold:
  "dp C m lp lc =
     (if m = push_bit (length C) 1 - 1 then Tour 0 []
      else fold (\<lambda>x. relax (conn_cost (C ! lp ! lc) (snd (snd x)) + cost (snd (snd x)))
                          (fst x, fst (snd x))
                          (dp C (or m (push_bit (fst x) 1)) (fst x) (fst (snd x))))
             (moves C m) NoTour)"
  unfolding moves_def
  by (subst dp.simps, subst fold_nested_flat [symmetric]) (simp cong: if_cong)

lemma unvisited_or:
  "j \<in> unvisited N m \<Longrightarrow> unvisited N (or m (push_bit j 1)) = unvisited N m - {j}"
  unfolding unvisited_def bit_or_push_bit_nat by auto

lemma selects_Nil: "selects C S [] = (S = {})"
  by (auto simp: selects_def)

lemma selects_Cons:
  "selects C S (jk # t) =
     (fst jk \<in> S \<and> snd jk < length (C ! fst jk) \<and> selects C (S - {fst jk}) t)"
  by (auto simp: selects_def intro: rev_image_eqI)

lemma dp_correct:
  assumes ne: "\<forall>p\<in>set C. p \<noteq> []"
  shows "(\<forall>j. bit m j \<longrightarrow> j < length C) \<Longrightarrow>
     \<exists>c p. dp C m lp lc = Tour c p \<and> selects C (unvisited (length C) m) p
          \<and> chain_cost C (C ! lp ! lc) p = c
          \<and> (\<forall>q. selects C (unvisited (length C) m) q \<longrightarrow> c \<le> chain_cost C (C ! lp ! lc) q)"
proof (induction "card (unvisited (length C) m)" arbitrary: m lp lc rule: less_induct)
  case less
  let ?N = "length C"
  let ?U = "unvisited ?N m"
  let ?prev = "C ! lp ! lc"
  let ?w = "\<lambda>x::nat \<times> nat \<times> CandidateOption. conn_cost ?prev (snd (snd x)) + cost (snd (snd x))"
  let ?jk = "\<lambda>x::nat \<times> nat \<times> CandidateOption. (fst x, fst (snd x))"
  let ?sub = "\<lambda>x::nat \<times> nat \<times> CandidateOption. dp C (or m (push_bit (fst x) 1)) (fst x) (fst (snd x))"
  have fin: "finite ?U" by (simp add: unvisited_def)
  show ?case
  proof (cases "?U = {}")
    case True
    then have "m = push_bit ?N 1 - 1"
      using full_mask_iff [OF less.prems] by simp
    then have "dp C m lp lc = Tour 0 []"
      by (subst dp_unfold) simp
    moreover have "selects C ?U []"
      using True by (simp add: selects_Nil)
    moreover have "chain_cost C ?prev q = 0" if "selects C ?U q" for q
    proof -
      from that True have "q = []" by (auto simp: selects_def)
      then show ?thesis by simp
    qed
    ultimately show ?thesis
      by simp
  next
    case False
    then have nf: "m \<noteq> push_bit ?N 1 - 1"
      using full_mask_iff [OF less.prems] by simp
    have dp_eq: "dp C m lp lc = fold (\<lambda>x. relax (?w x) (?jk x) (?sub x)) (moves C m) NoTour"
      using nf by (subst dp_unfold) simp
    have sub_ok: "\<exists>c p. ?sub x = Tour c p \<and> selects C (?U - {fst x}) p
          \<and> chain_cost C (snd (snd x)) p = c
          \<and> (\<forall>q. selects C (?U - {fst x}) q \<longrightarrow> c \<le> chain_cost C (snd (snd x)) q)"
      if x: "x \<in> set (moves C m)" for x
    proof -
      from x have j: "fst x \<in> ?U" and k: "fst (snd x) < length (C ! fst x)"
        and c: "snd (snd x) = C ! fst x ! fst (snd x)"
        by (simp_all add: in_set_moves)
      have U': "unvisited ?N (or m (push_bit (fst x) 1)) = ?U - {fst x}"
        using j by (rule unvisited_or)
      have "card (?U - {fst x}) < card ?U"
        using j fin by (meson card_Diff1_less)
      then have lt: "card (unvisited ?N (or m (push_bit (fst x) 1))) < card ?U"
        using U' by simp
      have bits: "\<forall>i. bit (or m (push_bit (fst x) 1)) i \<longrightarrow> i < ?N"
        using less.prems j unfolding bit_or_push_bit_nat unvisited_def by auto
      show ?thesis
        using less.hyps [OF lt bits, of "fst x" "fst (snd x)"] unfolding U' c by simp
    qed
    obtain j where j: "j \<in> ?U" using False by auto
    then have "j < ?N" by (simp add: unvisited_def)
    then have "C ! j \<noteq> []" using ne by simp
    then have x0: "(j, 0, C ! j ! 0) \<in> set (moves C m)"
      using j by (simp add: in_set_moves)
    have not_none: "dp C m lp lc \<noteq> NoTour"
    proof
      assume "dp C m lp lc = NoTour"
      then have "?sub (j, 0, C ! j ! 0) = NoTour"
        using fold_relax_NoTour [of ?w ?jk ?sub "moves C m" NoTour] x0 unfolding dp_eq by blast
      then show False using sub_ok [OF x0] by auto
    qed
    then obtain c p where cp: "dp C m lp lc = Tour c p"
      by (cases "dp C m lp lc") auto
    from fold_relax_origin [of ?w ?jk ?sub "moves C m" NoTour c p] cp
    obtain x sc sp where x: "x \<in> set (moves C m)" and sx: "?sub x = Tour sc sp"
      and c: "c = ?w x + sc" and p: "p = ?jk x # sp"
      unfolding dp_eq by auto
    from x have xj: "fst x \<in> ?U" and xk: "fst (snd x) < length (C ! fst x)"
      and xc: "snd (snd x) = C ! fst x ! fst (snd x)"
      by (simp_all add: in_set_moves)
    from sub_ok [OF x] sx have sp_sel: "selects C (?U - {fst x}) sp"
      and sp_cost: "chain_cost C (snd (snd x)) sp = sc" by auto
    have sel: "selects C ?U p"
      unfolding p using xj xk sp_sel by (simp add: selects_Cons)
    have cst: "chain_cost C ?prev p = c"
      unfolding p c using sp_cost xc by simp
    have low: "c \<le> chain_cost C ?prev q" if q: "selects C ?U q" for q
    proof (cases q)
      case Nil
      with q False show ?thesis by (simp add: selects_Nil)
    next
      case (Cons jk q')
      with q have qj: "fst jk \<in> ?U" and qk: "snd jk < length (C ! fst jk)"
        and q': "selects C (?U - {fst jk}) q'"
        by (simp_all add: selects_Cons)
      let ?y = "(fst jk, snd jk, C ! fst jk ! snd jk)"
      have y: "?y \<in> set (moves C m)"
        using qj qk by (simp add: in_set_moves)
      from sub_ok [OF y] obtain yc yp where sy: "?sub ?y = Tour yc yp"
        and ylow: "\<forall>q. selects C (?U - {fst jk}) q \<longrightarrow> yc \<le> chain_cost C (C ! fst jk ! snd jk) q"
        by auto
      have "c \<le> ?w ?y + yc"
        using fold_relax_lower [of ?w ?jk ?sub "moves C m" NoTour c p] cp y sy
        unfolding dp_eq by blast
      moreover have "yc \<le> chain_cost C (C ! fst jk ! snd jk) q'"
        using ylow q' by blast
      ultimately show ?thesis
        unfolding Cons by simp
    qed
    show ?thesis
      using cp sel cst low by blast
  qed
qed

lemma unvisited_0: "unvisited N 0 = {0..<N}"
  by (auto simp: unvisited_def)

lemma held_karp_unfold:
  "held_karp candidate_options =
     (let A = adjust_candidate_options candidate_options 1 (1 / 10000000) in
      fold (\<lambda>x. relax (cost (snd (snd x))) (fst x, fst (snd x))
                       (dp A (or 0 (push_bit (fst x) 1)) (fst x) (fst (snd x))))
           (moves A 0) NoTour)"
  unfolding held_karp_def moves_def Let_def
  by (subst fold_nested_flat [symmetric]) (simp cong: if_cong)

lemma adjust_nonempty:
  "\<forall>p\<in>set candidate_options. p \<noteq> [] \<Longrightarrow>
     \<forall>p\<in>set (adjust_candidate_options candidate_options penalty tol). p \<noteq> []"
  by (auto simp: adjust_candidate_options_def)

text \<open>
  Claim C1. For every non-empty sequence of partition candidate lists, each non-empty,
  \<^verbatim>\<open>held_karp\<close> returns a finite cost and a list of (partition, candidate) pairs such
  that: the list is a valid tour of the adjusted candidates (every partition once, one
  candidate of each), its tour cost (first adjusted cost, then connector plus adjusted
  cost for each consecutive pair, in visit order) is the returned cost, and no valid tour
  is cheaper. The adjustment is the turn-penalty rule with penalty 1.
\<close>

theorem held_karp_optimal:
  assumes "candidate_options \<noteq> []" and "\<forall>p\<in>set candidate_options. p \<noteq> []"
  shows "\<exists>c t. held_karp candidate_options = Tour c t
           \<and> valid_tour (adjust_candidate_options candidate_options 1 (1 / 10000000)) t
           \<and> tour_cost (adjust_candidate_options candidate_options 1 (1 / 10000000)) t = c
           \<and> (\<forall>t'. valid_tour (adjust_candidate_options candidate_options 1 (1 / 10000000)) t'
                    \<longrightarrow> c \<le> tour_cost (adjust_candidate_options candidate_options 1 (1 / 10000000)) t')"
proof -
  define A where "A = adjust_candidate_options candidate_options 1 (1 / 10000000)"
  let ?N = "length A"
  let ?U = "unvisited ?N 0"
  let ?w = "\<lambda>x::nat \<times> nat \<times> CandidateOption. cost (snd (snd x))"
  let ?jk = "\<lambda>x::nat \<times> nat \<times> CandidateOption. (fst x, fst (snd x))"
  let ?sub = "\<lambda>x::nat \<times> nat \<times> CandidateOption. dp A (or 0 (push_bit (fst x) 1)) (fst x) (fst (snd x))"
  have ne: "\<forall>p\<in>set A. p \<noteq> []"
    unfolding A_def using assms(2) by (rule adjust_nonempty)
  have N: "0 < ?N"
    unfolding A_def using assms(1) by (simp add: adjust_candidate_options_length)
  have hk: "held_karp candidate_options = fold (\<lambda>x. relax (?w x) (?jk x) (?sub x)) (moves A 0) NoTour"
    unfolding A_def by (simp add: held_karp_unfold Let_def)
  have vt: "valid_tour A t = selects A ?U t" for t
    by (simp add: valid_tour_def unvisited_0)
  have sub_ok: "\<exists>c p. ?sub x = Tour c p \<and> selects A (?U - {fst x}) p
          \<and> chain_cost A (snd (snd x)) p = c
          \<and> (\<forall>q. selects A (?U - {fst x}) q \<longrightarrow> c \<le> chain_cost A (snd (snd x)) q)"
      if x: "x \<in> set (moves A 0)" for x
  proof -
    from x have j: "fst x \<in> ?U" and c: "snd (snd x) = A ! fst x ! fst (snd x)"
      by (simp_all add: in_set_moves)
    have U': "unvisited ?N (or 0 (push_bit (fst x) 1)) = ?U - {fst x}"
      using j by (rule unvisited_or)
    have bits: "\<forall>i. bit (or (0::nat) (push_bit (fst x) 1)) i \<longrightarrow> i < ?N"
      using j unfolding bit_or_push_bit_nat unvisited_def by auto
    show ?thesis
      using dp_correct [OF ne bits, of "fst x" "fst (snd x)"] unfolding U' c by simp
  qed
  have "A ! 0 \<noteq> []" using ne N by simp
  then have x0: "(0, 0, A ! 0 ! 0) \<in> set (moves A 0)"
    using N by (simp add: in_set_moves unvisited_0)
  have not_none: "held_karp candidate_options \<noteq> NoTour"
  proof
    assume "held_karp candidate_options = NoTour"
    then have "?sub (0, 0, A ! 0 ! 0) = NoTour"
      using fold_relax_NoTour [of ?w ?jk ?sub "moves A 0" NoTour] x0 unfolding hk by blast
    then show False using sub_ok [OF x0] by auto
  qed
  then obtain c p where cp: "held_karp candidate_options = Tour c p"
    by (cases "held_karp candidate_options") auto
  from fold_relax_origin [of ?w ?jk ?sub "moves A 0" NoTour c p] cp
  obtain x sc sp where x: "x \<in> set (moves A 0)" and sx: "?sub x = Tour sc sp"
    and c: "c = ?w x + sc" and p: "p = ?jk x # sp"
    unfolding hk by auto
  from x have xj: "fst x \<in> ?U" and xk: "fst (snd x) < length (A ! fst x)"
    and xc: "snd (snd x) = A ! fst x ! fst (snd x)"
    by (simp_all add: in_set_moves)
  from sub_ok [OF x] sx have sp_sel: "selects A (?U - {fst x}) sp"
    and sp_cost: "chain_cost A (snd (snd x)) sp = sc" by auto
  have sel: "valid_tour A p"
    unfolding vt p using xj xk sp_sel by (simp add: selects_Cons)
  have cst: "tour_cost A p = c"
    unfolding p c using sp_cost xc by simp
  have low: "c \<le> tour_cost A q" if q: "valid_tour A q" for q
  proof (cases q)
    case Nil
    with q N show ?thesis by (simp add: vt selects_Nil unvisited_0)
  next
    case (Cons jk q')
    with q have qj: "fst jk \<in> ?U" and qk: "snd jk < length (A ! fst jk)"
      and q': "selects A (?U - {fst jk}) q'"
      by (simp_all add: vt selects_Cons)
    let ?y = "(fst jk, snd jk, A ! fst jk ! snd jk)"
    have y: "?y \<in> set (moves A 0)"
      using qj qk by (simp add: in_set_moves)
    from sub_ok [OF y] obtain yc yp where sy: "?sub ?y = Tour yc yp"
      and ylow: "\<forall>q. selects A (?U - {fst jk}) q \<longrightarrow> yc \<le> chain_cost A (A ! fst jk ! snd jk) q"
      by auto
    have "c \<le> ?w ?y + yc"
      using fold_relax_lower [of ?w ?jk ?sub "moves A 0" NoTour c p] cp y sy
      unfolding hk by blast
    moreover have "yc \<le> chain_cost A (A ! fst jk ! snd jk) q'"
      using ylow q' by blast
    ultimately show ?thesis
      unfolding Cons by simp
  qed
  show ?thesis
    unfolding A_def [symmetric] using cp sel cst low by blast
qed

text \<open>
  An instance: two partitions with one candidate each. Visiting partition 1 first ends at
  the entry of partition 0, so that order has no connector and is the one returned.
\<close>

definition cand_return :: CandidateOption where
  "cand_return = \<lparr>entry = (5, 0), exit = (0, 0), cost = 5, turns = 1, path = None\<rparr>"

lemma hypot_axis: "hypot a 0 = \<bar>a\<bar>" "hypot 0 b = \<bar>b\<bar>"
  by (simp_all add: hypot_def)

lemma adjust_straight_return:
  "adjust_candidate_options [[cand_straight], [cand_return]] 1 (1 / 10000000)
     = [[cand_straight], [cand_return]]"
  by (simp add: adjust_candidate_options_def cand_straight_def cand_return_def)

lemma held_karp_straight_return:
  "held_karp [[cand_straight], [cand_return]] = Tour 7 [(1, 0), (0, 0)]"
  unfolding held_karp_def adjust_straight_return Let_def
  by (simp add: dp.simps relax_def conn_cost_def cand_straight_def cand_return_def hypot_axis
        enumerate_eq_zip upt_rec [of 0] upt_rec [of 1] upt_rec [of 2])

theorem held_karp_optimal_witness:
  "[[cand_straight], [cand_return]] \<noteq> []
   \<and> held_karp [[cand_straight], [cand_return]] = Tour 7 [(1, 0), (0, 0)]
   \<and> valid_tour [[cand_straight], [cand_return]] [(1, 0), (0, 0)]
   \<and> tour_cost [[cand_straight], [cand_return]] [(1, 0), (0, 0)] = 7
   \<and> valid_tour [[cand_straight], [cand_return]] [(0, 0), (1, 0)]
   \<and> 7 \<le> tour_cost [[cand_straight], [cand_return]] [(0, 0), (1, 0)]"
proof -
  have h1: "[[cand_straight], [cand_return]] \<noteq> []" by simp
  have h2: "\<forall>p\<in>set [[cand_straight], [cand_return]]. p \<noteq> []" by simp
  have v: "valid_tour [[cand_straight], [cand_return]] [(0, 0), (1, 0)]"
    by (auto simp: valid_tour_def selects_def)
  from held_karp_optimal [OF h1 h2] v show ?thesis
    unfolding adjust_straight_return held_karp_straight_return by auto
qed

section \<open>Geometry: the interface to the geometry library\<close>

text \<open>
  The sources build on a 2D geometry library (\<^verbatim>\<open>shapely\<close>). Its geometries are modelled
  by their type tag and coordinates: a polygon is an exterior ring and interior rings
  (\<^verbatim>\<open>exterior.coords\<close> is closed, the first point repeated last), the other geometries
  are what an intersection, a union or a split can return. What only reads coordinates
  (\<^verbatim>\<open>is_empty\<close>, \<^verbatim>\<open>bounds\<close>, \<^verbatim>\<open>boundary\<close>, \<^verbatim>\<open>length\<close>) is a function on this type; the
  boolean operations and the area are the library's and are taken as parameters, the
  record \<open>shapely\<close>.
\<close>

record polygon =
  exterior :: "Point2D list"
  interiors :: "Point2D list list"

datatype geometry =
    Point Point2D
  | MultiPoint "Point2D list"
  | LineString "Point2D list"
  | MultiLineString "Point2D list list"
  | Polygon polygon
  | MultiPolygon "polygon list"
  | GeometryCollection "geometry list"

datatype py_error = ZeroDivisionError | AttributeError | GeometryError

fun is_empty :: "geometry \<Rightarrow> bool" where
  "is_empty (Point p) = False"
| "is_empty (MultiPoint ps) = (ps = [])"
| "is_empty (LineString cs) = (cs = [])"
| "is_empty (MultiLineString ls) = list_all (\<lambda>l. l = []) ls"
| "is_empty (Polygon p) = (exterior p = [])"
| "is_empty (MultiPolygon ps) = list_all (\<lambda>p. exterior p = []) ps"
| "is_empty (GeometryCollection gs) = list_all is_empty gs"

fun outer_coords :: "geometry \<Rightarrow> Point2D list" where
  "outer_coords (Point p) = [p]"
| "outer_coords (MultiPoint ps) = ps"
| "outer_coords (LineString cs) = cs"
| "outer_coords (MultiLineString ls) = concat ls"
| "outer_coords (Polygon p) = exterior p"
| "outer_coords (MultiPolygon ps) = concat (map exterior ps)"
| "outer_coords (GeometryCollection gs) = concat (map outer_coords gs)"

fun max_list :: "real list \<Rightarrow> real" where
  "max_list (x # xs) = (case xs of [] \<Rightarrow> x | _ \<Rightarrow> max x (max_list xs))"

text \<open>
  \<^verbatim>\<open>geom.bounds\<close> is \<^verbatim>\<open>(minx, miny, maxx, maxy)\<close> over the coordinates. On an empty
  geometry the library gives NaNs; the sources read the bounds of an empty geometry only
  where they build no sweep line from them.
\<close>

definition bounds :: "geometry \<Rightarrow> real \<times> real \<times> real \<times> real" where
  "bounds g = (let cs = outer_coords g in
     (min_list (map fst cs), min_list (map snd cs), max_list (map fst cs), max_list (map snd cs)))"

definition boundary :: "polygon \<Rightarrow> geometry" where
  "boundary p = (if interiors p = [] then LineString (exterior p)
                 else MultiLineString (exterior p # interiors p))"

fun line_length :: "Point2D list \<Rightarrow> real" where
  "line_length (p # q # rest) = hypot (fst q - fst p) (snd q - snd p) + line_length (q # rest)"
| "line_length _ = 0"

record shapely =
  sh_intersection :: "geometry \<Rightarrow> geometry \<Rightarrow> geometry"
  sh_union :: "geometry \<Rightarrow> geometry \<Rightarrow> geometry"
  sh_split :: "polygon \<Rightarrow> geometry \<Rightarrow> geometry list option"
  sh_area :: "geometry \<Rightarrow> real"

text \<open>
  \<open>sh_split K p line\<close> is \<^verbatim>\<open>split(p, line).geoms\<close>, or \<open>None\<close> when the library raises.
  Python's \<^verbatim>\<open>round\<close> rounds a half to the even neighbour.
\<close>

definition py_round :: "real \<Rightarrow> int" where
  "py_round x = (let f = \<lfloor>x\<rfloor>; d = x - of_int f in
     if d < 1 / 2 then f else if 1 / 2 < d then f + 1 else if even f then f else f + 1)"

section \<open>Trouble analyzer (\<^verbatim>\<open>decomposition.py\<close>)\<close>

definition gather_all_ring_coords :: "polygon \<Rightarrow> Point2D list" where
  "gather_all_ring_coords polygon = exterior polygon @ concat (interiors polygon)"

fun extract_points_from_intersection :: "geometry \<Rightarrow> Point2D list" where
  "extract_points_from_intersection (Point p) = [p]"
| "extract_points_from_intersection (MultiPoint ps) = ps"
| "extract_points_from_intersection (LineString cs) = (if cs = [] then [] else [hd cs, last cs])"
| "extract_points_from_intersection (GeometryCollection gs) =
     (if list_all is_empty gs then [] else concat (map extract_points_from_intersection gs))"
| "extract_points_from_intersection (MultiLineString ls) = []"
| "extract_points_from_intersection (Polygon p) = []"
| "extract_points_from_intersection (MultiPolygon ps) = []"

text \<open>
  \<^verbatim>\<open>sorted(set(round(v / tolerance) * tolerance for ...))\<close>: the division raises
  \<^verbatim>\<open>ZeroDivisionError\<close> for \<^verbatim>\<open>tolerance == 0\<close> as soon as there is a coordinate.
\<close>

definition snapped :: "real \<Rightarrow> real list \<Rightarrow> real list" where
  "snapped tolerance vs = sort (remdups (map (\<lambda>v. of_int (py_round (v / tolerance)) * tolerance) vs))"

definition horizontal_sweep :: "shapely \<Rightarrow> polygon \<Rightarrow> real \<Rightarrow> Point2D list" where
  "horizontal_sweep K polygon candidate_y =
     (case bounds (Polygon polygon) of (minx, miny, maxx, maxy) \<Rightarrow>
        extract_points_from_intersection
          (sh_intersection K (boundary polygon)
             (LineString [(minx - 1, candidate_y), (maxx + 1, candidate_y)])))"

definition vertical_sweep :: "shapely \<Rightarrow> polygon \<Rightarrow> real \<Rightarrow> Point2D list" where
  "vertical_sweep K polygon candidate_x =
     (case bounds (Polygon polygon) of (minx, miny, maxx, maxy) \<Rightarrow>
        extract_points_from_intersection
          (sh_intersection K (boundary polygon)
             (LineString [(candidate_x, miny - 1), (candidate_x, maxy + 1)])))"

text \<open>
  \<^verbatim>\<open>is_polygon_troublesome(polygon, tolerance)\<close>. Each loop sets its flag and breaks at
  the first band whose sweep meets the boundary in more than two points, so the flag is
  \<open>list_ex\<close> over the consecutive pairs of snapped coordinates.
\<close>

definition is_polygon_troublesome :: "shapely \<Rightarrow> polygon \<Rightarrow> real \<Rightarrow> py_error + (bool \<times> bool)" where
  "is_polygon_troublesome K polygon tolerance =
     (let coords = gather_all_ring_coords polygon in
      if tolerance = 0 \<and> coords \<noteq> [] then Inl ZeroDivisionError
      else
        let ys = snapped tolerance (map snd coords);
            xs = snapped tolerance (map fst coords);
            horizontal_trouble =
              list_ex (\<lambda>b. 2 < length (horizontal_sweep K polygon ((fst b + snd b) / 2))) (zip ys (tl ys));
            vertical_trouble =
              list_ex (\<lambda>b. 2 < length (vertical_sweep K polygon ((fst b + snd b) / 2))) (zip xs (tl xs))
        in Inr (horizontal_trouble, vertical_trouble))"

section \<open>Turn counting and path length (\<^verbatim>\<open>utils/helpers.py\<close>)\<close>

text \<open>
  \<^verbatim>\<open>math.atan2(dy, dx)\<close> is the argument of the complex number \<open>dx + i dy\<close>, in
  \<open>(-\<pi>, \<pi>]\<close> and 0 at the origin. Python's float \<^verbatim>\<open>a % b\<close> for positive \<open>b\<close> is
  \<open>a - b * floor (a / b)\<close>.
\<close>

definition atan2 :: "real \<Rightarrow> real \<Rightarrow> real" where
  "atan2 dy dx = Arg (Complex dx dy)"

definition py_fmod :: "real \<Rightarrow> real \<Rightarrow> real" where
  "py_fmod a b = a - b * of_int \<lfloor>a / b\<rfloor>"

fun orientations :: "Point2D list \<Rightarrow> real list" where
  "orientations (p # q # rest) = atan2 (snd q - snd p) (fst q - fst p) # orientations (q # rest)"
| "orientations _ = []"

fun turn_count :: "real list \<Rightarrow> nat" where
  "turn_count (a # b # rest) =
     (if 1 / 10000000 < \<bar>py_fmod (b - a + pi) (2 * pi) - pi\<bar> then 1 else 0) + turn_count (b # rest)"
| "turn_count _ = 0"

definition count_turns :: "Point2D list \<Rightarrow> int" where
  "count_turns pth = (if length pth < 3 then 0 else int (turn_count (orientations pth)))"

section \<open>Per-partition candidate generator (\<^verbatim>\<open>parallel_track.py\<close>)\<close>

text \<open>A waypoint is indexed by an axis: \<^verbatim>\<open>p[0]\<close> or \<^verbatim>\<open>p[1]\<close>.\<close>

definition axis_coord :: "nat \<Rightarrow> Point2D \<Rightarrow> real" where
  "axis_coord axis_index p = (if axis_index = 0 then fst p else snd p)"

text \<open>\<^verbatim>\<open>statistics.median\<close> of a non-empty list.\<close>

definition median :: "real list \<Rightarrow> real" where
  "median data = (let s = sort data; n = length s in
     if odd n then s ! (n div 2) else (s ! (n div 2 - 1) + s ! (n div 2)) / 2)"

definition compute_cell_spacing :: "Point2D list \<Rightarrow> nat \<Rightarrow> real" where
  "compute_cell_spacing waypoints axis_index =
     (let coords = sort (map (axis_coord axis_index) waypoints);
          diffs = filter (\<lambda>d. 1 / 1000000 < d) (map (\<lambda>ab. snd ab - fst ab) (zip coords (tl coords)))
      in if diffs \<noteq> [] then median diffs else 0)"

text \<open>
  The dictionary of lanes, in insertion order: \<^verbatim>\<open>lanes.setdefault(key, []).append(p)\<close>.
\<close>

fun lane_append :: "(int \<times> Point2D list) list \<Rightarrow> int \<Rightarrow> Point2D \<Rightarrow> (int \<times> Point2D list) list" where
  "lane_append [] key p = [(key, [p])]"
| "lane_append ((k, lane) # lanes) key p =
     (if k = key then (k, lane @ [p]) # lanes else (k, lane) # lane_append lanes key p)"

definition group_into_lanes :: "Point2D list \<Rightarrow> nat \<Rightarrow> real \<Rightarrow> (int \<times> Point2D list) list" where
  "group_into_lanes waypoints axis_index spacing =
     (if waypoints = [] then []
      else
        let min_val = min_list (map (axis_coord axis_index) waypoints) in
        if spacing = 0 then [(0, waypoints)]
        else fold (\<lambda>p lanes. lane_append lanes (py_round ((axis_coord axis_index p - min_val) / spacing)) p)
               waypoints [])"

text \<open>
  \<^verbatim>\<open>sorted(lane, key=...)\<close> is stable; with \<^verbatim>\<open>reverse=True\<close> the order is descending and
  equal keys keep their original order.
\<close>

definition sorted_lane :: "nat \<Rightarrow> bool \<Rightarrow> Point2D list \<Rightarrow> Point2D list" where
  "sorted_lane sort_axis ascending lane =
     (if ascending then sort_key (axis_coord sort_axis) lane
      else rev (sort_key (axis_coord sort_axis) (rev lane)))"

definition compute_sweep_path :: "Point2D list \<Rightarrow> nat \<Rightarrow> nat \<Rightarrow> bool \<Rightarrow> bool \<Rightarrow> Point2D list" where
  "compute_sweep_path waypoints bin_axis sort_axis reverse_bin_order reverse_lane_order =
     (let spacing = compute_cell_spacing waypoints bin_axis;
          lanes = group_into_lanes waypoints bin_axis spacing;
          ordered_keys = (if reverse_bin_order then rev (sort (map fst lanes)) else sort (map fst lanes))
      in concat (map (\<lambda>ik.
           let lane = (case map_of lanes (snd ik) of Some l \<Rightarrow> l | None \<Rightarrow> []);
               even_lane_should_ascend =
                 ((fst ik mod 2 = 0 \<and> \<not> reverse_lane_order) \<or> (fst ik mod 2 = 1 \<and> reverse_lane_order))
           in sorted_lane sort_axis even_lane_should_ascend lane)
         (enumerate 0 ordered_keys)))"

definition euclidean_distance :: "Point2D \<Rightarrow> Point2D \<Rightarrow> real" where
  "euclidean_distance p1 p2 = sqrt ((fst p1 - fst p2)\<^sup>2 + (snd p1 - snd p2)\<^sup>2)"

fun total_path_length :: "Point2D list \<Rightarrow> real" where
  "total_path_length (p # q # rest) = euclidean_distance p q + total_path_length (q # rest)"
| "total_path_length _ = 0"

definition corner_variants_for_direction :: "Point2D list \<Rightarrow> nat \<Rightarrow> nat \<Rightarrow> Point2D list list" where
  "corner_variants_for_direction waypoints bin_axis sort_axis =
     [compute_sweep_path waypoints bin_axis sort_axis False False,
      compute_sweep_path waypoints bin_axis sort_axis False True,
      compute_sweep_path waypoints bin_axis sort_axis True False,
      compute_sweep_path waypoints bin_axis sort_axis True True]"

text \<open>
  The last loop of \<^verbatim>\<open>get_candidate_options\<close>: empty paths are skipped, every other path
  becomes a \<^verbatim>\<open>CandidateOption\<close>.
\<close>

definition options_of_paths :: "Point2D list list \<Rightarrow> CandidateOption list" where
  "options_of_paths candidate_paths =
     map (\<lambda>pth. \<lparr>entry = hd pth, exit = last pth, cost = total_path_length pth,
                  turns = count_turns pth, path = Some pth\<rparr>)
         (filter (\<lambda>pth. pth \<noteq> []) candidate_paths)"

text \<open>
  \<^verbatim>\<open>get_candidate_options(waypoints, polygon=None)\<close>. \<^verbatim>\<open>if polygon:\<close> is the truth value
  of the argument: false for \<^verbatim>\<open>None\<close> and for an empty polygon.
\<close>

definition candidate_paths_for :: "Point2D list \<Rightarrow> bool \<Rightarrow> bool \<Rightarrow> Point2D list list" where
  "candidate_paths_for waypoints horizontal_ok vertical_ok =
     (if horizontal_ok \<or> (\<not> horizontal_ok \<and> \<not> vertical_ok)
      then corner_variants_for_direction waypoints 0 1 else [])
     @ (if vertical_ok \<or> (\<not> vertical_ok \<and> \<not> horizontal_ok)
        then corner_variants_for_direction waypoints 1 0 else [])"

definition get_candidate_options ::
  "shapely \<Rightarrow> Point2D list \<Rightarrow> polygon option \<Rightarrow> py_error + CandidateOption list" where
  "get_candidate_options K waypoints polygon =
     (case (case polygon of
              None \<Rightarrow> Inr (True, True)
            | Some p \<Rightarrow>
                if exterior p = [] then Inr (True, True)
                else (case is_polygon_troublesome K p 1 of
                        Inl e \<Rightarrow> Inl e
                      | Inr hv \<Rightarrow> Inr (\<not> fst hv, \<not> snd hv)))
      of Inl e \<Rightarrow> Inl e
       | Inr ok \<Rightarrow> Inr (options_of_paths (candidate_paths_for waypoints (fst ok) (snd ok))))"

subsection \<open>Properties of the candidate generator\<close>

lemma is_polygon_troublesome_tol1:
  "\<exists>h v. is_polygon_troublesome K p 1 = Inr (h, v)"
  by (simp add: is_polygon_troublesome_def Let_def)


lemma compute_sweep_path_single:
  "compute_sweep_path [wp] bin_axis sort_axis reverse_bin_order reverse_lane_order = [wp]"
  by (simp add: compute_sweep_path_def compute_cell_spacing_def group_into_lanes_def
        sorted_lane_def Let_def enumerate_eq_zip)

lemma corner_variants_single:
  "corner_variants_for_direction [wp] bin_axis sort_axis = replicate 4 [wp]"
  by (simp add: corner_variants_for_direction_def compute_sweep_path_single numeral_eq_Suc)

definition single_option :: "Point2D \<Rightarrow> CandidateOption" where
  "single_option wp = \<lparr>entry = wp, exit = wp, cost = 0, turns = 0, path = Some [wp]\<rparr>"

lemma options_of_paths_single:
  "options_of_paths (replicate n [wp]) = replicate n (single_option wp)"
  by (simp add: options_of_paths_def single_option_def count_turns_def map_replicate_const)

lemma candidate_paths_for_single:
  "candidate_paths_for [wp] horizontal_ok vertical_ok =
     replicate (if horizontal_ok = vertical_ok then 8 else 4) [wp]"
  by (auto simp: candidate_paths_for_def corner_variants_single replicate_add [symmetric])

text \<open>
  Claim C7 says that for a single waypoint the generator returns exactly one candidate, of
  cost 0 and 0 turns. The source builds four corner variants per eligible axis and keeps
  every non-empty one, so the claim as amended is: for a single waypoint the generator
  returns four candidates per eligible axis (eight when no polygon is supplied, when the
  polygon is empty, or when both axes or neither are troublesome; four when exactly one
  axis is troublesome), and every one of them has cost 0, 0 turns, the waypoint as entry
  and exit, and the one-point path.
\<close>

theorem single_cell_candidates:
  "(\<exists>h v. is_polygon_troublesome K p 1 = Inr (h, v)
       \<and> get_candidate_options K [wp] (Some p) =
           Inr (replicate (if exterior p = [] \<or> h = v then 8 else 4) (single_option wp)))
   \<and> get_candidate_options K [wp] None = Inr (replicate 8 (single_option wp))"
proof -
  obtain h v where hv: "is_polygon_troublesome K p 1 = Inr (h, v)"
    using is_polygon_troublesome_tol1 by blast
  have "get_candidate_options K [wp] (Some p) =
           Inr (replicate (if exterior p = [] \<or> h = v then 8 else 4) (single_option wp))"
    by (auto simp: get_candidate_options_def hv candidate_paths_for_single options_of_paths_single)
  moreover have "get_candidate_options K [wp] None = Inr (replicate 8 (single_option wp))"
    by (simp add: get_candidate_options_def candidate_paths_for_single options_of_paths_single)
  ultimately show ?thesis using hv by blast
qed


section \<open>Gap quantifier and greedy partitioner (\<^verbatim>\<open>decomposition.py\<close>)\<close>

text \<open>
  The aggregated metrics of \<^verbatim>\<open>quantify_gap_severity\<close>. The per-band \<^verbatim>\<open>details\<close> it also
  returns are diagnostic only (no decision reads them) and are left out.
\<close>

record gap_metrics =
  max_horizontal_gap :: real
  total_horizontal_gap :: real
  max_vertical_gap :: real
  total_vertical_gap :: real
  combined_gap :: real
  horizontal_union :: "geometry option"
  vertical_union :: "geometry option"

text \<open>
  \<^verbatim>\<open>Polygon([(x0, y0), (x1, y0), (x1, y1), (x0, y1)])\<close>: the library closes the ring.
\<close>

definition box :: "real \<Rightarrow> real \<Rightarrow> real \<Rightarrow> real \<Rightarrow> polygon" where
  "box x0 y0 x1 y1 = \<lparr>exterior = [(x0, y0), (x1, y0), (x1, y1), (x0, y1), (x0, y0)], interiors = []\<rparr>"

text \<open>
  The gaps of one sweep: \<^verbatim>\<open>for j in range(1, len(pts)-1, 2): gap = pts[j+1] - pts[j]\<close>,
  on the sorted coordinates of the intersection points, when there are more than two.
\<close>

definition sweep_gaps :: "real list \<Rightarrow> real list" where
  "sweep_gaps vs = (if 2 < length vs
     then map (\<lambda>j. vs ! (j + 1) - vs ! j) (filter odd [1..<length vs - 1]) else [])"

text \<open>
  One iteration of a band loop. The state is \<^verbatim>\<open>(total_gap, max_gap, union)\<close>; \<open>pts\<close> are
  the intersection points of the band's sweep, \<open>vs\<close> their sorted coordinates along the
  sweep, \<open>band\<close> the rectangle of the band.
\<close>

definition band_step ::
  "shapely \<Rightarrow> polygon \<Rightarrow> Point2D list \<Rightarrow> real list \<Rightarrow> polygon
     \<Rightarrow> real \<times> real \<times> geometry option \<Rightarrow> real \<times> real \<times> geometry option" where
  "band_step K polygon pts vs band st =
     (case fold (\<lambda>gap tm. (fst tm + gap, max (snd tm) gap)) (sweep_gaps vs) (fst st, fst (snd st)) of
        (total_gap, max_gap) \<Rightarrow>
          let band_in_poly = sh_intersection K (Polygon polygon) (Polygon band);
              is_troublesome = (2 < length pts)
          in (total_gap, max_gap,
              if is_troublesome \<and> \<not> is_empty band_in_poly
              then (case snd (snd st) of
                      None \<Rightarrow> Some band_in_poly
                    | Some u \<Rightarrow> Some (sh_union K u band_in_poly))
              else snd (snd st)))"

definition quantify_gap_severity :: "shapely \<Rightarrow> polygon \<Rightarrow> real \<Rightarrow> bool \<Rightarrow> py_error + gap_metrics" where
  "quantify_gap_severity K polygon tolerance all_rings =
     (case bounds (Polygon polygon) of (minx, miny, maxx, maxy) \<Rightarrow>
      let coords = (if all_rings then gather_all_ring_coords polygon else exterior polygon) in
      if tolerance = 0 \<and> coords \<noteq> [] then Inl ZeroDivisionError
      else
        let ys = snapped tolerance (map snd coords);
            xs = snapped tolerance (map fst coords);
            h = fold (\<lambda>b st.
                   let pts = horizontal_sweep K polygon ((fst b + snd b) / 2)
                   in band_step K polygon pts (sort (map fst pts)) (box minx (fst b) maxx (snd b)) st)
                 (zip ys (tl ys)) (0, 0, None);
            v = fold (\<lambda>b st.
                   let pts = vertical_sweep K polygon ((fst b + snd b) / 2)
                   in band_step K polygon pts (sort (map snd pts)) (box (fst b) miny (snd b) maxy) st)
                 (zip xs (tl xs)) (0, 0, None)
        in Inr \<lparr>max_horizontal_gap = fst (snd h), total_horizontal_gap = fst h,
                max_vertical_gap = fst (snd v), total_vertical_gap = fst v,
                combined_gap = fst h + fst v,
                horizontal_union = snd (snd h), vertical_union = snd (snd v)\<rparr>)"

text \<open>A pass record of the partitioner, without the per-band \<^verbatim>\<open>details\<close>.\<close>

record pass_record =
  pass_depth :: nat
  subject_polygon :: polygon
  metrics :: gap_metrics
  cut_line :: "geometry option"
  horiz_union :: "geometry option"
  vert_union :: "geometry option"

definition horizontal_cut :: "polygon \<Rightarrow> geometry \<Rightarrow> geometry" where
  "horizontal_cut polygon horiz_u =
     (case bounds (Polygon polygon) of (minx, miny, maxx, maxy) \<Rightarrow>
      case bounds horiz_u of (ux0, uy0, ux1, uy1) \<Rightarrow>
        LineString [(minx - 1, (uy0 + uy1) / 2), (maxx + 1, (uy0 + uy1) / 2)])"

definition vertical_cut :: "polygon \<Rightarrow> geometry \<Rightarrow> geometry" where
  "vertical_cut polygon vert_u =
     (case bounds (Polygon polygon) of (minx, miny, maxx, maxy) \<Rightarrow>
      case bounds vert_u of (ux0, uy0, ux1, uy1) \<Rightarrow>
        LineString [((ux0 + ux1) / 2, miny - 1), ((ux0 + ux1) / 2, maxy + 1)])"

text \<open>\<^verbatim>\<open>Choose cut\<close>: the four-way choice of the cut line.\<close>

definition choose_cut :: "polygon \<Rightarrow> gap_metrics \<Rightarrow> geometry option" where
  "choose_cut polygon m =
     (case (horizontal_union m, vertical_union m) of
        (Some hu, Some vu) \<Rightarrow>
          if total_vertical_gap m \<le> total_horizontal_gap m
          then Some (horizontal_cut polygon hu) else Some (vertical_cut polygon vu)
      | (Some hu, None) \<Rightarrow> Some (horizontal_cut polygon hu)
      | (None, Some vu) \<Rightarrow> Some (vertical_cut polygon vu)
      | (None, None) \<Rightarrow> None)"

text \<open>\<^verbatim>\<open>cut_line.coords[0][1] == cut_line.coords[1][1]\<close>\<close>

definition is_horizontal_line :: "geometry \<Rightarrow> bool" where
  "is_horizontal_line line = (case line of LineString (a # b # rest) \<Rightarrow> snd a = snd b | _ \<Rightarrow> False)"

text \<open>
  The body of \<^verbatim>\<open>_greedy_partition\<close> between the base case and the recursion: either the
  polygon is returned as it is with its pass record (\<open>Leaf\<close>), or it has been split in
  more than one piece (\<open>Cut\<close>). The first \<^verbatim>\<open>split\<close> is inside \<^verbatim>\<open>try\<close>; the fallback
  \<^verbatim>\<open>split\<close> is not, so an exception there propagates.
\<close>

datatype cut_result = Leaf pass_record | Cut pass_record "geometry list"

definition attempt_cut :: "shapely \<Rightarrow> polygon \<Rightarrow> nat \<Rightarrow> real \<Rightarrow> py_error + cut_result" where
  "attempt_cut K polygon depth tolerance =
     (case quantify_gap_severity K polygon tolerance False of
        Inl e \<Rightarrow> Inl e
      | Inr m \<Rightarrow>
        (case choose_cut polygon m of
           None \<Rightarrow> Inr (Leaf \<lparr>pass_depth = depth, subject_polygon = polygon, metrics = m,
                               cut_line = None, horiz_union = None, vert_union = None\<rparr>)
         | Some line \<Rightarrow>
           (case sh_split K polygon line of
              None \<Rightarrow> Inr (Leaf \<lparr>pass_depth = depth, subject_polygon = polygon, metrics = m,
                                  cut_line = Some line, horiz_union = horizontal_union m,
                                  vert_union = vertical_union m\<rparr>)
            | Some geoms \<Rightarrow>
              (case (if length geoms \<le> 1
                     then (if is_horizontal_line line
                           then (case vertical_union m of
                                   Some vu \<Rightarrow>
                                     (case sh_split K polygon (vertical_cut polygon vu) of
                                        None \<Rightarrow> Inl GeometryError
                                      | Some geoms2 \<Rightarrow> Inr (vertical_cut polygon vu, geoms2))
                                 | None \<Rightarrow> Inr (line, geoms))
                           else (case horizontal_union m of
                                   Some hu \<Rightarrow>
                                     (case sh_split K polygon (horizontal_cut polygon hu) of
                                        None \<Rightarrow> Inl GeometryError
                                      | Some geoms2 \<Rightarrow> Inr (horizontal_cut polygon hu, geoms2))
                                 | None \<Rightarrow> Inr (line, geoms)))
                     else Inr (line, geoms))
               of Inl e \<Rightarrow> Inl e
                | Inr lg \<Rightarrow>
                    let p = \<lparr>pass_depth = depth, subject_polygon = polygon, metrics = m,
                             cut_line = Some (fst lg), horiz_union = horizontal_union m,
                             vert_union = vertical_union m\<rparr>
                    in if length (snd lg) \<le> 1 then Inr (Leaf p) else Inr (Cut p (snd lg))))))"

text \<open>
  The polygons the recursion visits in one piece of the split: nothing for an empty piece,
  the piece itself when it is a polygon, its members when it is a multi-polygon.
\<close>

definition polygons_of :: "geometry \<Rightarrow> polygon list" where
  "polygons_of piece =
     (if is_empty piece then []
      else case piece of Polygon p \<Rightarrow> [p] | MultiPolygon ps \<Rightarrow> ps | _ \<Rightarrow> [])"

text \<open>\<^verbatim>\<open>pieces.extend(child_pieces); passes.extend(child_passes)\<close>, stopping at an exception.\<close>

fun collect :: "(py_error + 'a list \<times> 'b list) list \<Rightarrow> py_error + 'a list \<times> 'b list" where
  "collect [] = Inr ([], [])"
| "collect (r # rs) =
     (case r of
        Inl e \<Rightarrow> Inl e
      | Inr ab \<Rightarrow> (case collect rs of
                     Inl e \<Rightarrow> Inl e
                   | Inr ab' \<Rightarrow> Inr (fst ab @ fst ab', snd ab @ snd ab')))"

text \<open>
  \<^verbatim>\<open>_greedy_partition(polygon, depth, max_depth, tolerance)\<close>, returning
  \<^verbatim>\<open>(pieces, passes)\<close>. The recursion is entered only below \<open>max_depth\<close>, with the
  depth increased by one, so it ends.
\<close>

function greedy_partition_rec ::
  "shapely \<Rightarrow> polygon \<Rightarrow> nat \<Rightarrow> nat \<Rightarrow> real \<Rightarrow> py_error + polygon list \<times> pass_record list" where
  "greedy_partition_rec K polygon depth max_depth tolerance =
     (case is_polygon_troublesome K polygon tolerance of
        Inl e \<Rightarrow> Inl e
      | Inr hv \<Rightarrow>
          if max_depth \<le> depth \<or> \<not> (fst hv \<and> snd hv) then Inr ([polygon], [])
          else
            (case attempt_cut K polygon depth tolerance of
               Inl e \<Rightarrow> Inl e
             | Inr (Leaf p) \<Rightarrow> Inr ([polygon], [p])
             | Inr (Cut p geoms) \<Rightarrow>
                 (case collect (map (\<lambda>piece. greedy_partition_rec K piece (Suc depth) max_depth tolerance)
                                    (concat (map polygons_of geoms))) of
                    Inl e \<Rightarrow> Inl e
                  | Inr r \<Rightarrow> Inr (fst r, p # snd r))))"
  by pat_completeness auto
termination
  by (relation "measure (\<lambda>(K, polygon, depth, max_depth, tolerance). max_depth - depth)") auto

declare greedy_partition_rec.simps [simp del]

text \<open>\<^verbatim>\<open>greedy_partition(polygon, max_depth=10, tolerance=1)\<close>\<close>

definition greedy_partition ::
  "shapely \<Rightarrow> polygon \<Rightarrow> nat \<Rightarrow> real \<Rightarrow> py_error + polygon list \<times> pass_record list" where
  "greedy_partition K polygon max_depth tolerance = greedy_partition_rec K polygon 0 max_depth tolerance"

section \<open>Partition merger (\<^verbatim>\<open>decomposition.py\<close>)\<close>

text \<open>
  The shared boundary length of a pair, by the type of the boundary intersection. The
  merge log that the source also builds is diagnostic only and is left out.
\<close>

definition lines_length :: "geometry \<Rightarrow> real" where
  "lines_length g = (case g of
       LineString cs \<Rightarrow> line_length cs
     | MultiLineString ls \<Rightarrow> sum_list (map line_length ls)
     | _ \<Rightarrow> 0)"

definition shared_length :: "geometry \<Rightarrow> real" where
  "shared_length shared_geom =
     (if is_empty shared_geom then 0
      else case shared_geom of
          LineString cs \<Rightarrow> line_length cs
        | MultiLineString ls \<Rightarrow> sum_list (map line_length ls)
        | GeometryCollection gs \<Rightarrow> fold (\<lambda>g s. s + lines_length g) gs 0
        | _ \<Rightarrow> 0)"

text \<open>
  The candidate union of a pair, normalised: \<open>Inr None\<close> when the pair is skipped (empty,
  multi-part, or a collection without exactly one polygon), \<open>Inr (Some p)\<close> for a single
  polygon. Any other geometry reaches \<^verbatim>\<open>is_polygon_troublesome\<close>, which reads
  \<^verbatim>\<open>.exterior\<close> and raises \<^verbatim>\<open>AttributeError\<close>.
\<close>

definition normalise_union :: "geometry \<Rightarrow> py_error + polygon option" where
  "normalise_union candidate_union =
     (if is_empty candidate_union then Inr None
      else case candidate_union of
          MultiPolygon ps \<Rightarrow> Inr None
        | GeometryCollection gs \<Rightarrow>
            (case concat (map (\<lambda>g. case g of Polygon p \<Rightarrow> [p] | _ \<Rightarrow> []) gs) of
               [p] \<Rightarrow> Inr (Some p)
             | _ \<Rightarrow> Inr None)
        | Polygon p \<Rightarrow> Inr (Some p)
        | _ \<Rightarrow> Inl AttributeError)"

text \<open>
  The body of the inner loop for one \<open>j\<close> that is not used yet. The state is
  \<^verbatim>\<open>(poly_i, used_indices, merged_any)\<close>.
\<close>

definition merge_step ::
  "shapely \<Rightarrow> real \<Rightarrow> polygon \<Rightarrow> nat \<Rightarrow> polygon \<times> nat set \<times> bool
     \<Rightarrow> py_error + polygon \<times> nat set \<times> bool" where
  "merge_step K tolerance poly_j j st =
     (let poly_i = fst st;
          shared_geom = sh_intersection K (boundary poly_i) (boundary poly_j)
      in if shared_length shared_geom < tolerance then Inr st
         else (case normalise_union (sh_union K (Polygon poly_i) (Polygon poly_j)) of
                 Inl e \<Rightarrow> Inl e
               | Inr None \<Rightarrow> Inr st
               | Inr (Some u) \<Rightarrow>
                   (case is_polygon_troublesome K u tolerance of
                      Inl e \<Rightarrow> Inl e
                    | Inr hv \<Rightarrow>
                        if fst hv \<and> snd hv then Inr st
                        else Inr (u, insert j (fst (snd st)), True))))"

fun merge_inner ::
  "shapely \<Rightarrow> real \<Rightarrow> polygon list \<Rightarrow> nat list \<Rightarrow> polygon \<times> nat set \<times> bool
     \<Rightarrow> py_error + polygon \<times> nat set \<times> bool" where
  "merge_inner K tolerance partitions [] st = Inr st"
| "merge_inner K tolerance partitions (j # js) st =
     (if j \<in> fst (snd st) then merge_inner K tolerance partitions js st
      else (case merge_step K tolerance (partitions ! j) j st of
              Inl e \<Rightarrow> Inl e
            | Inr st' \<Rightarrow> merge_inner K tolerance partitions js st'))"

text \<open>
  The outer loop; the state is \<^verbatim>\<open>(new_partitions, used_indices, merged_any)\<close>.
\<close>

fun merge_outer ::
  "shapely \<Rightarrow> real \<Rightarrow> polygon list \<Rightarrow> nat list \<Rightarrow> polygon list \<times> nat set \<times> bool
     \<Rightarrow> py_error + polygon list \<times> nat set \<times> bool" where
  "merge_outer K tolerance partitions [] st = Inr st"
| "merge_outer K tolerance partitions (i # is) st =
     (if i \<in> fst (snd st) then merge_outer K tolerance partitions is st
      else (case merge_inner K tolerance partitions [i + 1..<length partitions]
                   (partitions ! i, fst (snd st), snd (snd st)) of
              Inl e \<Rightarrow> Inl e
            | Inr r \<Rightarrow> merge_outer K tolerance partitions is
                         (fst st @ [fst r], insert i (fst (snd r)), snd (snd r))))"

text \<open>One iteration of the \<^verbatim>\<open>while merged_any\<close> loop.\<close>

definition merge_pass ::
  "shapely \<Rightarrow> real \<Rightarrow> polygon list \<Rightarrow> py_error + polygon list \<times> nat set \<times> bool" where
  "merge_pass K tolerance partitions =
     merge_outer K tolerance partitions [0..<length partitions] ([], {}, False)"

lemma merge_step_effect:
  assumes "merge_step K tolerance poly_j j st = Inr st'"
  shows "(st' = st \<or> (fst (snd st') = insert j (fst (snd st)) \<and> snd (snd st')))"
  using assms
  by (auto simp: merge_step_def Let_def split: sum.splits option.splits if_splits)

lemma merge_inner_effect:
  assumes "merge_inner K tolerance partitions js st = Inr st'"
  shows "fst (snd st) \<subseteq> fst (snd st') \<and> fst (snd st') \<subseteq> fst (snd st) \<union> set js
       \<and> (snd (snd st) \<longrightarrow> snd (snd st'))
       \<and> (snd (snd st') \<longrightarrow> snd (snd st) \<or> fst (snd st') \<noteq> fst (snd st))
       \<and> (\<not> snd (snd st') \<longrightarrow> st' = st)"
  using assms
proof (induction js arbitrary: st)
  case Nil
  then show ?case by simp
next
  case (Cons j js)
  show ?case
  proof (cases "j \<in> fst (snd st)")
    case True
    with Cons.prems have "merge_inner K tolerance partitions js st = Inr st'" by simp
    from Cons.IH [OF this] show ?thesis by auto
  next
    case False
    with Cons.prems obtain st1 where s1: "merge_step K tolerance (partitions ! j) j st = Inr st1"
      and r: "merge_inner K tolerance partitions js st1 = Inr st'"
      by (auto split: sum.splits)
    note ih = Cons.IH [OF r]
    from merge_step_effect [OF s1] show ?thesis
    proof
      assume "st1 = st"
      with ih show ?thesis by auto
    next
      assume a: "fst (snd st1) = insert j (fst (snd st)) \<and> snd (snd st1)"
      with ih False show ?thesis by auto
    qed
  qed
qed

lemma merge_outer_effect:
  assumes "merge_outer K tolerance partitions is st = Inr st'"
    and "set is \<subseteq> {0..<length partitions}" and "fst (snd st) \<subseteq> {0..<length partitions}"
    and "length (fst st) \<le> card (fst (snd st))"
    and "snd (snd st) \<longrightarrow> length (fst st) < card (fst (snd st))"
  shows "fst (snd st') \<subseteq> {0..<length partitions}
       \<and> length (fst st') \<le> card (fst (snd st'))
       \<and> (snd (snd st') \<longrightarrow> length (fst st') < card (fst (snd st')))
       \<and> (snd (snd st) \<longrightarrow> snd (snd st'))"
  using assms
proof (induction "is" arbitrary: st)
  case Nil
  then show ?case by simp
next
  case (Cons i "is")
  let ?n = "length partitions"
  have fin: "finite (fst (snd st))"
    using Cons.prems(3) by (meson finite_atLeastLessThan finite_subset)
  show ?case
  proof (cases "i \<in> fst (snd st)")
    case True
    with Cons.prems(1) have "merge_outer K tolerance partitions is st = Inr st'" by simp
    from Cons.IH [OF this] Cons.prems show ?thesis by simp
  next
    case False
    with Cons.prems(1) obtain r where
      inner: "merge_inner K tolerance partitions [i + 1..<?n] (partitions ! i, fst (snd st), snd (snd st)) = Inr r"
      and rest: "merge_outer K tolerance partitions is (fst st @ [fst r], insert i (fst (snd r)), snd (snd r)) = Inr st'"
      by (auto split: sum.splits)
    from merge_inner_effect [OF inner] have
      sub: "fst (snd st) \<subseteq> fst (snd r)" and sup: "fst (snd r) \<subseteq> fst (snd st) \<union> {i + 1..<?n}"
      and mono: "snd (snd st) \<longrightarrow> snd (snd r)"
      and ch: "snd (snd r) \<longrightarrow> snd (snd st) \<or> fst (snd r) \<noteq> fst (snd st)"
      by auto
    have i_lt: "i < ?n" using Cons.prems(2) by simp
    have r_sub: "fst (snd r) \<subseteq> {0..<?n}" using sup Cons.prems(3) by auto
    then have r_fin: "finite (fst (snd r))"
      by (meson finite_atLeastLessThan finite_subset)
    have i_notin: "i \<notin> fst (snd r)" using sup False by auto
    have c1: "card (fst (snd st)) \<le> card (fst (snd r))"
      using sub r_fin by (simp add: card_mono)
    have c2: "fst (snd r) \<noteq> fst (snd st) \<Longrightarrow> card (fst (snd st)) < card (fst (snd r))"
      using sub r_fin by (simp add: psubset_card_mono psubsetI)
    have c3: "card (insert i (fst (snd r))) = Suc (card (fst (snd r)))"
      using i_notin r_fin by simp
    have p2: "set is \<subseteq> {0..<?n}" using Cons.prems(2) by simp
    have p3: "fst (snd (fst st @ [fst r], insert i (fst (snd r)), snd (snd r))) \<subseteq> {0..<?n}"
      using r_sub i_lt by simp
    have p4: "length (fst (fst st @ [fst r], insert i (fst (snd r)), snd (snd r)))
            \<le> card (fst (snd (fst st @ [fst r], insert i (fst (snd r)), snd (snd r))))"
      using Cons.prems(4) c1 c3 by simp
    have p5: "snd (snd (fst st @ [fst r], insert i (fst (snd r)), snd (snd r))) \<longrightarrow>
              length (fst (fst st @ [fst r], insert i (fst (snd r)), snd (snd r)))
            < card (fst (snd (fst st @ [fst r], insert i (fst (snd r)), snd (snd r))))"
    proof (cases "snd (snd st)")
      case True
      with Cons.prems(5) c1 c3 show ?thesis by simp
    next
      case False
      show ?thesis
      proof (cases "snd (snd r)")
        case True
        with ch False have "fst (snd r) \<noteq> fst (snd st)" by simp
        from c2 [OF this] Cons.prems(4) c3 show ?thesis by simp
      next
        case False
        then show ?thesis by simp
      qed
    qed
    from Cons.IH [OF rest p2 p3 p4 p5] mono show ?thesis by simp
  qed
qed

lemma merge_pass_shrinks:
  assumes "merge_pass K tolerance partitions = Inr r" and "snd (snd r)"
  shows "length (fst r) < length partitions"
proof -
  have "fst (snd r) \<subseteq> {0..<length partitions} \<and> (snd (snd r) \<longrightarrow> length (fst r) < card (fst (snd r)))"
    using merge_outer_effect [OF assms(1) [unfolded merge_pass_def]] by simp
  then have "length (fst r) < card (fst (snd r))" and "fst (snd r) \<subseteq> {0..<length partitions}"
    using assms(2) by simp_all
  moreover from this(2) have "card (fst (snd r)) \<le> card {0..<length partitions}"
    by (intro card_mono) simp_all
  ultimately show ?thesis by simp
qed

lemma merge_outer_unmerged:
  assumes "merge_outer K tolerance partitions [k..<length partitions] (take k partitions, {0..<k}, False) = Inr st'"
    and "\<not> snd (snd st')" and "k \<le> length partitions"
  shows "fst st' = partitions"
  using assms
proof (induction "length partitions - k" arbitrary: k)
  case 0
  then show ?case by auto
next
  case (Suc d)
  let ?n = "length partitions"
  from Suc.hyps(2) Suc.prems(3) have k: "k < ?n" by simp
  then have upt: "[k..<?n] = k # [Suc k..<?n]" by (simp add: upt_rec)
  from Suc.prems(1) obtain r where
    inner: "merge_inner K tolerance partitions [k + 1..<?n] (partitions ! k, {0..<k}, False) = Inr r"
    and rest: "merge_outer K tolerance partitions [Suc k..<?n]
                 (take k partitions @ [fst r], insert k (fst (snd r)), snd (snd r)) = Inr st'"
    unfolding upt by (auto split: sum.splits)
  have sub3: "fst (snd (take k partitions @ [fst r], insert k (fst (snd r)), snd (snd r))) \<subseteq> {0..<?n}"
    using merge_inner_effect [OF inner] k by auto
  have "\<not> snd (snd r)"
  proof
    assume m: "snd (snd r)"
    have "snd (snd (take k partitions @ [fst r], insert k (fst (snd r)), snd (snd r))) \<longrightarrow> snd (snd st')"
    proof -
      have a2: "set [Suc k..<?n] \<subseteq> {0..<?n}" by auto
      have "fst (snd r) \<subseteq> {0..<?n}" using sub3 by simp
      then have fin: "finite (fst (snd r))"
        by (rule finite_subset) simp
      have ch: "fst (snd r) \<noteq> {0..<k}" and sub: "{0..<k} \<subseteq> fst (snd r)"
        and sup: "fst (snd r) \<subseteq> {0..<k} \<union> {k + 1..<?n}"
        using merge_inner_effect [OF inner] m by auto
      have kn: "k \<notin> fst (snd r)" using sup by auto
      have "{0..<k} \<subset> fst (snd r)" using ch sub by blast
      from psubset_card_mono [OF fin this] have "card {0..<k} < card (fst (snd r))" .
      then have lt: "Suc k < card (insert k (fst (snd r)))"
        using kn fin by simp
      have a4: "length (fst (take k partitions @ [fst r], insert k (fst (snd r)), snd (snd r)))
            \<le> card (fst (snd (take k partitions @ [fst r], insert k (fst (snd r)), snd (snd r))))"
        using lt k by simp
      have a5: "snd (snd (take k partitions @ [fst r], insert k (fst (snd r)), snd (snd r))) \<longrightarrow>
              length (fst (take k partitions @ [fst r], insert k (fst (snd r)), snd (snd r)))
            < card (fst (snd (take k partitions @ [fst r], insert k (fst (snd r)), snd (snd r))))"
        using lt k by simp
      from merge_outer_effect [OF rest a2 sub3 a4 a5] show ?thesis by simp
    qed
    with m Suc.prems(2) show False by simp
  qed
  then have r: "r = (partitions ! k, {0..<k}, False)"
    using merge_inner_effect [OF inner] by auto
  have st: "(take k partitions @ [fst r], insert k (fst (snd r)), snd (snd r))
          = (take (Suc k) partitions, {0..<Suc k}, False)"
    using k unfolding r by (auto simp: take_Suc_conv_app_nth)
  have d: "d = ?n - Suc k" using Suc.hyps(2) by simp
  show ?case
    using Suc.hyps(1) [OF d rest [unfolded st] Suc.prems(2)] k by simp
qed

lemma merge_pass_unmerged:
  assumes "merge_pass K tolerance partitions = Inr r" and "\<not> snd (snd r)"
  shows "fst r = partitions"
  using merge_outer_unmerged [of K tolerance partitions 0 r] assms
  by (simp add: merge_pass_def)

text \<open>
  \<^verbatim>\<open>merge_partitions(partitions, tolerance=1e-6)\<close>: the loop body runs at least once and
  is repeated as long as a pass has merged a pair. A pass that merges shortens the list,
  so the loop ends.
\<close>

function merge_partitions :: "shapely \<Rightarrow> polygon list \<Rightarrow> real \<Rightarrow> py_error + polygon list" where
  "merge_partitions K partitions tolerance =
     (case merge_pass K tolerance partitions of
        Inl e \<Rightarrow> Inl e
      | Inr r \<Rightarrow> if snd (snd r) then merge_partitions K (fst r) tolerance else Inr (fst r))"
  by pat_completeness auto
termination
  by (relation "measure (\<lambda>(K, partitions, tolerance). length partitions)")
     (auto intro: merge_pass_shrinks)

declare merge_partitions.simps [simp del]

subsection \<open>Properties of the partitioner and the merger\<close>

text \<open>
  Claim C9. \<^verbatim>\<open>merge_partitions\<close> is idempotent: applied with the same tolerance to the
  list it returned, it returns that list unchanged.
\<close>

theorem merge_partitions_idempotent:
  "merge_partitions K partitions tolerance = Inr merged \<Longrightarrow>
     merge_partitions K merged tolerance = Inr merged"
proof (induction K partitions tolerance rule: merge_partitions.induct)
  case (1 K partitions tolerance)
  from "1.prems" obtain r where r: "merge_pass K tolerance partitions = Inr r"
    by (subst (asm) merge_partitions.simps) (auto split: sum.splits)
  show ?case
  proof (cases "snd (snd r)")
    case True
    with r "1.prems" have "merge_partitions K (fst r) tolerance = Inr merged"
      by (subst (asm) merge_partitions.simps) simp
    from "1.IH" [OF r True this] show ?thesis .
  next
    case False
    with r "1.prems" have "merged = fst r"
      by (subst (asm) merge_partitions.simps) simp
    with merge_pass_unmerged [OF r False] have "merged = partitions" by simp
    with "1.prems" show ?thesis by simp
  qed
qed

lemma sweeps_at_most_two:
  assumes "\<forall>a b. length (extract_points_from_intersection
                       (sh_intersection K (boundary polygon) (LineString [a, b]))) \<le> 2"
    and "is_polygon_troublesome K polygon tolerance = Inr (h, v)"
  shows "\<not> h \<and> \<not> v"
proof -
  have hs: "\<not> 2 < length (horizontal_sweep K polygon c)" for c
    using assms(1) by (auto simp: horizontal_sweep_def not_less split: prod.splits)
  have vs: "\<not> 2 < length (vertical_sweep K polygon c)" for c
    using assms(1) by (auto simp: vertical_sweep_def not_less split: prod.splits)
  from assms(2) show ?thesis
    by (auto simp: is_polygon_troublesome_def Let_def hs vs list_ex_iff split: if_splits)
qed

lemma greedy_partition_rec_base:
  assumes "is_polygon_troublesome K polygon tolerance = Inr (h, v)"
    and "max_depth \<le> depth \<or> \<not> (h \<and> v)"
  shows "greedy_partition_rec K polygon depth max_depth tolerance = Inr ([polygon], [])"
  using assms by (subst greedy_partition_rec.simps) auto

text \<open>
  Claim C8. \<^verbatim>\<open>_greedy_partition\<close> returns the input polygon as its single piece, with no
  pass recorded (no split attempted), whenever the depth has reached \<open>max_depth\<close> or the
  analyzer does not report trouble in both axes. The same holds for \<^verbatim>\<open>greedy_partition\<close>,
  which starts at depth 0. In particular a convex polygon, one whose boundary every line
  meets in at most two points, has no trouble in either axis and yields exactly one piece.
\<close>

theorem greedy_partition_returns_input:
  assumes "is_polygon_troublesome K polygon tolerance = Inr (h, v)"
  shows "(max_depth \<le> depth \<or> \<not> (h \<and> v) \<longrightarrow>
            greedy_partition_rec K polygon depth max_depth tolerance = Inr ([polygon], []))
       \<and> (max_depth = 0 \<or> \<not> (h \<and> v) \<longrightarrow>
            greedy_partition K polygon max_depth tolerance = Inr ([polygon], []))
       \<and> ((\<forall>a b. length (extract_points_from_intersection
                          (sh_intersection K (boundary polygon) (LineString [a, b]))) \<le> 2) \<longrightarrow>
            \<not> h \<and> \<not> v \<and> greedy_partition K polygon max_depth tolerance = Inr ([polygon], []))"
  using greedy_partition_rec_base [OF assms] sweeps_at_most_two [OF _ assms]
  by (auto simp: greedy_partition_def)

section \<open>A restricted kernel for boxes\<close>

text \<open>
  An instance of the geometry interface, used for the examples. It is exact, as point
  sets, on: the boundary of a rectilinear polygon against an axis-parallel segment that
  passes through no vertex (the crossing points); two boxes (intersection, shared
  boundary, split by an axis-parallel line, union when the union is a box, disjoint
  otherwise); a polygon against a box that contains it; the area of a polygon (shoelace
  formula). Outside these cases it returns an empty collection, two separate parts or the
  unsplit polygon, and no statement below evaluates it there.
\<close>

definition ring_edges :: "Point2D list \<Rightarrow> (Point2D \<times> Point2D) list" where
  "ring_edges r = zip r (tl r)"

definition edge_crossing :: "Point2D \<Rightarrow> Point2D \<Rightarrow> Point2D \<times> Point2D \<Rightarrow> Point2D list" where
  "edge_crossing a b e =
     (if snd a = snd b \<and> fst (fst e) = fst (snd e)
         \<and> min (snd (fst e)) (snd (snd e)) < snd a \<and> snd a < max (snd (fst e)) (snd (snd e))
         \<and> min (fst a) (fst b) \<le> fst (fst e) \<and> fst (fst e) \<le> max (fst a) (fst b)
      then [(fst (fst e), snd a)]
      else if fst a = fst b \<and> snd (fst e) = snd (snd e)
         \<and> min (fst (fst e)) (fst (snd e)) < fst a \<and> fst a < max (fst (fst e)) (fst (snd e))
         \<and> min (snd a) (snd b) \<le> snd (fst e) \<and> snd (fst e) \<le> max (snd a) (snd b)
      then [(fst a, snd (fst e))]
      else [])"

definition points_geometry :: "Point2D list \<Rightarrow> geometry" where
  "points_geometry ps = (case ps of [] \<Rightarrow> GeometryCollection [] | [p] \<Rightarrow> Point p | _ \<Rightarrow> MultiPoint ps)"

definition crossings :: "Point2D list list \<Rightarrow> Point2D \<Rightarrow> Point2D \<Rightarrow> geometry" where
  "crossings rings a b = points_geometry (concat (map (edge_crossing a b) (concat (map ring_edges rings))))"

definition as_box :: "polygon \<Rightarrow> (real \<times> real \<times> real \<times> real) option" where
  "as_box p =
     (if exterior p = [] then None
      else case bounds (Polygon p) of (x0, y0, x1, y1) \<Rightarrow>
        if p = box x0 y0 x1 y1 \<and> x0 < x1 \<and> y0 < y1 then Some (x0, y0, x1, y1) else None)"

definition box_meet :: "real \<times> real \<times> real \<times> real \<Rightarrow> real \<times> real \<times> real \<times> real \<Rightarrow> geometry" where
  "box_meet b c =
     (case b of (x0, y0, x1, y1) \<Rightarrow> case c of (u0, v0, u1, v1) \<Rightarrow>
        let lx = max x0 u0; hx = min x1 u1; ly = max y0 v0; hy = min y1 v1 in
        if lx < hx \<and> ly < hy then Polygon (box lx ly hx hy)
        else if lx = hx \<and> ly = hy then Point (lx, ly)
        else if lx = hx \<and> ly < hy then LineString [(lx, ly), (lx, hy)]
        else if ly = hy \<and> lx < hx then LineString [(lx, ly), (hx, ly)]
        else Polygon \<lparr>exterior = [], interiors = []\<rparr>)"

definition within_box :: "real \<times> real \<times> real \<times> real \<Rightarrow> real \<times> real \<times> real \<times> real \<Rightarrow> bool" where
  "within_box b c =
     (case b of (x0, y0, x1, y1) \<Rightarrow> case c of (u0, v0, u1, v1) \<Rightarrow>
        u0 \<le> x0 \<and> x1 \<le> u1 \<and> v0 \<le> y0 \<and> y1 \<le> v1)"

definition box_intersection :: "geometry \<Rightarrow> geometry \<Rightarrow> geometry" where
  "box_intersection g1 g2 =
     (case (g1, g2) of
        (LineString r, LineString [a, b]) \<Rightarrow> crossings [r] a b
      | (MultiLineString rs, LineString [a, b]) \<Rightarrow> crossings rs a b
      | (LineString r1, LineString r2) \<Rightarrow>
          (case (as_box \<lparr>exterior = r1, interiors = []\<rparr>, as_box \<lparr>exterior = r2, interiors = []\<rparr>) of
             (Some b, Some c) \<Rightarrow>
               (case box_meet b c of Polygon p \<Rightarrow> GeometryCollection [] | g \<Rightarrow> g)
           | _ \<Rightarrow> GeometryCollection [])
      | (Polygon p, Polygon q) \<Rightarrow>
          (case (as_box p, as_box q) of
             (Some b, Some c) \<Rightarrow> box_meet b c
           | (None, Some c) \<Rightarrow>
               if exterior p \<noteq> [] \<and> within_box (bounds (Polygon p)) c then Polygon p
               else GeometryCollection []
           | (Some b, None) \<Rightarrow>
               if exterior q \<noteq> [] \<and> within_box (bounds (Polygon q)) b then Polygon q
               else GeometryCollection []
           | _ \<Rightarrow> GeometryCollection [])
      | _ \<Rightarrow> GeometryCollection [])"

definition box_union :: "geometry \<Rightarrow> geometry \<Rightarrow> geometry" where
  "box_union g1 g2 =
     (case (g1, g2) of
        (Polygon p, Polygon q) \<Rightarrow>
          (case (as_box p, as_box q) of
             (Some (x0, y0, x1, y1), Some (u0, v0, u1, v1)) \<Rightarrow>
               if y0 = v0 \<and> y1 = v1 \<and> (x1 = u0 \<or> u1 = x0)
               then Polygon (box (min x0 u0) y0 (max x1 u1) y1)
               else if x0 = u0 \<and> x1 = u1 \<and> (y1 = v0 \<or> v1 = y0)
               then Polygon (box x0 (min y0 v0) x1 (max y1 v1))
               else MultiPolygon [p, q]
           | _ \<Rightarrow> MultiPolygon [p, q])
      | _ \<Rightarrow> GeometryCollection [g1, g2])"

definition box_split :: "polygon \<Rightarrow> geometry \<Rightarrow> geometry list option" where
  "box_split p line =
     (case (as_box p, line) of
        (Some (x0, y0, x1, y1), LineString [a, b]) \<Rightarrow>
          if snd a = snd b \<and> y0 < snd a \<and> snd a < y1
             \<and> min (fst a) (fst b) \<le> x0 \<and> x1 \<le> max (fst a) (fst b)
          then Some [Polygon (box x0 y0 x1 (snd a)), Polygon (box x0 (snd a) x1 y1)]
          else if fst a = fst b \<and> x0 < fst a \<and> fst a < x1
             \<and> min (snd a) (snd b) \<le> y0 \<and> y1 \<le> max (snd a) (snd b)
          then Some [Polygon (box x0 y0 (fst a) y1), Polygon (box (fst a) y0 x1 y1)]
          else Some [Polygon p]
      | _ \<Rightarrow> Some [Polygon p])"

fun shoelace :: "Point2D list \<Rightarrow> real" where
  "shoelace (p # q # rest) = fst p * snd q - fst q * snd p + shoelace (q # rest)"
| "shoelace _ = 0"

definition polygon_area :: "polygon \<Rightarrow> real" where
  "polygon_area p = \<bar>shoelace (exterior p)\<bar> / 2 - sum_list (map (\<lambda>r. \<bar>shoelace r\<bar> / 2) (interiors p))"

fun box_area :: "geometry \<Rightarrow> real" where
  "box_area (Polygon p) = polygon_area p"
| "box_area (MultiPolygon ps) = sum_list (map polygon_area ps)"
| "box_area (GeometryCollection gs) = sum_list (map box_area gs)"
| "box_area (Point p) = 0"
| "box_area (MultiPoint ps) = 0"
| "box_area (LineString cs) = 0"
| "box_area (MultiLineString ls) = 0"

definition box_kernel :: shapely where
  "box_kernel = \<lparr>sh_intersection = box_intersection, sh_union = box_union,
                 sh_split = box_split, sh_area = box_area\<rparr>"

text \<open>The polygons of the examples.\<close>

definition rectangle_10_4 :: polygon where
  "rectangle_10_4 = box 0 0 10 4"

definition u_shape :: polygon where
  "u_shape = \<lparr>exterior = [(0, 0), (10, 0), (10, 10), (6, 10), (6, 4), (4, 4), (4, 10), (0, 10), (0, 0)],
              interiors = []\<rparr>"

definition square_with_hole :: polygon where
  "square_with_hole = \<lparr>exterior = [(0, 0), (10, 0), (10, 10), (0, 10), (0, 0)],
                       interiors = [[(1, 1), (2, 1), (2, 2), (1, 2), (1, 1)]]\<rparr>"

lemma py_round_numeral: "py_round (numeral n) = numeral n" "py_round 0 = 0" "py_round 1 = 1"
  by (simp_all add: py_round_def)

lemmas sweep_eval =
  horizontal_sweep_def vertical_sweep_def boundary_def box_kernel_def box_intersection_def
  crossings_def ring_edges_def edge_crossing_def points_geometry_def bounds_def

lemmas trouble_eval =
  is_polygon_troublesome_def gather_all_ring_coords_def Let_def snapped_def py_round_numeral
  sweep_eval

subsection \<open>The depth at which a piece is returned\<close>

text \<open>
  \<open>greedy_partition_traced\<close> is \<open>greedy_partition_rec\<close> with every returned piece paired
  with the depth of the call that returned it; \<open>untrace\<close> forgets the depths.
\<close>

function greedy_partition_traced ::
  "shapely \<Rightarrow> polygon \<Rightarrow> nat \<Rightarrow> nat \<Rightarrow> real \<Rightarrow> py_error + (polygon \<times> nat) list \<times> pass_record list" where
  "greedy_partition_traced K polygon depth max_depth tolerance =
     (case is_polygon_troublesome K polygon tolerance of
        Inl e \<Rightarrow> Inl e
      | Inr hv \<Rightarrow>
          if max_depth \<le> depth \<or> \<not> (fst hv \<and> snd hv) then Inr ([(polygon, depth)], [])
          else
            (case attempt_cut K polygon depth tolerance of
               Inl e \<Rightarrow> Inl e
             | Inr (Leaf p) \<Rightarrow> Inr ([(polygon, depth)], [p])
             | Inr (Cut p geoms) \<Rightarrow>
                 (case collect (map (\<lambda>piece. greedy_partition_traced K piece (Suc depth) max_depth tolerance)
                                    (concat (map polygons_of geoms))) of
                    Inl e \<Rightarrow> Inl e
                  | Inr r \<Rightarrow> Inr (fst r, p # snd r))))"
  by pat_completeness auto
termination
  by (relation "measure (\<lambda>(K, polygon, depth, max_depth, tolerance). max_depth - depth)") auto

declare greedy_partition_traced.simps [simp del]

definition untrace :: "py_error + (polygon \<times> nat) list \<times> pass_record list
                         \<Rightarrow> py_error + polygon list \<times> pass_record list" where
  "untrace r = (case r of Inl e \<Rightarrow> Inl e | Inr lp \<Rightarrow> Inr (map fst (fst lp), snd lp))"

lemma collect_untrace: "collect (map untrace rs) = untrace (collect rs)"
  by (induction rs) (auto simp: untrace_def split: sum.splits)

lemma greedy_partition_untrace:
  "greedy_partition_rec K polygon depth max_depth tolerance
     = untrace (greedy_partition_traced K polygon depth max_depth tolerance)"
proof (induction K polygon depth max_depth tolerance rule: greedy_partition_traced.induct)
  case (1 K polygon depth max_depth tolerance)
  show ?case
  proof (cases "is_polygon_troublesome K polygon tolerance")
    case (Inl e)
    then show ?thesis
      by (subst greedy_partition_rec.simps, subst greedy_partition_traced.simps) (simp add: untrace_def)
  next
    case (Inr hv)
    show ?thesis
    proof (cases "max_depth \<le> depth \<or> \<not> (fst hv \<and> snd hv)")
      case True
      with Inr show ?thesis
        by (subst greedy_partition_rec.simps, subst greedy_partition_traced.simps) (simp add: untrace_def)
    next
      case False
      show ?thesis
      proof (cases "attempt_cut K polygon depth tolerance")
        case (Inl e)
        with Inr False show ?thesis
          by (subst greedy_partition_rec.simps, subst greedy_partition_traced.simps) (simp add: untrace_def)
      next
        case cut: (Inr c)
        show ?thesis
        proof (cases c)
          case (Leaf p)
          with Inr False cut show ?thesis
            by (subst greedy_partition_rec.simps, subst greedy_partition_traced.simps) (simp add: untrace_def)
        next
          case (Cut p geoms)
          have ih: "map (\<lambda>piece. greedy_partition_rec K piece (Suc depth) max_depth tolerance)
                      (concat (map polygons_of geoms))
                  = map untrace (map (\<lambda>piece. greedy_partition_traced K piece (Suc depth) max_depth tolerance)
                      (concat (map polygons_of geoms)))"
            using "1.IH" [OF Inr False cut Cut] by simp
          have ih2: "collect (map (\<lambda>piece. greedy_partition_rec K piece (Suc depth) max_depth tolerance)
                      (concat (map polygons_of geoms)))
                  = untrace (collect (map (\<lambda>piece. greedy_partition_traced K piece (Suc depth) max_depth tolerance)
                      (concat (map polygons_of geoms))))"
            by (simp only: ih collect_untrace)
          have l: "greedy_partition_rec K polygon depth max_depth tolerance =
                (case collect (map (\<lambda>piece. greedy_partition_rec K piece (Suc depth) max_depth tolerance)
                                    (concat (map polygons_of geoms))) of
                    Inl e \<Rightarrow> Inl e
                  | Inr r \<Rightarrow> Inr (fst r, p # snd r))"
            using Inr False cut Cut by (subst greedy_partition_rec.simps) simp
          have r: "greedy_partition_traced K polygon depth max_depth tolerance =
                (case collect (map (\<lambda>piece. greedy_partition_traced K piece (Suc depth) max_depth tolerance)
                                    (concat (map polygons_of geoms))) of
                    Inl e \<Rightarrow> Inl e
                  | Inr r \<Rightarrow> Inr (fst r, p # snd r))"
            using Inr False cut Cut by (subst greedy_partition_traced.simps) simp
          show ?thesis
            unfolding l r ih2 by (simp add: untrace_def split: sum.splits)
        qed
      qed
    qed
  qed
qed

subsection \<open>The gap quantifier on the coordinates of all rings\<close>

text \<open>
  \<^verbatim>\<open>quantify_gap_severity\<close> takes its bands from the exterior ring (the default, which
  \<^verbatim>\<open>_greedy_partition\<close> uses) or, with \<^verbatim>\<open>candidate_source="all_rings"\<close>, from all rings as
  the analyzer does. On all rings its bands and sweeps are the analyzer's: when the analyzer
  reports trouble in an axis and the bands of that axis meet the polygon, the quantifier
  returns a union for that axis, and a cut line is chosen.
\<close>

lemma band_step_union:
  "snd (snd (band_step K polygon pts vs band st)) =
     (if 2 < length pts \<and> \<not> is_empty (sh_intersection K (Polygon polygon) (Polygon band))
      then (case snd (snd st) of
              None \<Rightarrow> Some (sh_intersection K (Polygon polygon) (Polygon band))
            | Some u \<Rightarrow> Some (sh_union K u (sh_intersection K (Polygon polygon) (Polygon band))))
      else snd (snd st))"
  by (simp add: band_step_def Let_def split: prod.splits)

lemma fold_band_step_union:
  assumes "\<forall>b\<in>set bs. \<not> is_empty (sh_intersection K (Polygon polygon) (Polygon (band b)))"
    and "snd (snd st) \<noteq> None \<or> list_ex (\<lambda>b. 2 < length (pts b)) bs"
  shows "snd (snd (fold (\<lambda>b st. band_step K polygon (pts b) (vs b) (band b) st) bs st)) \<noteq> None"
  using assms
proof (induction bs arbitrary: st)
  case Nil
  then show ?case by simp
next
  case (Cons b bs)
  have "snd (snd (band_step K polygon (pts b) (vs b) (band b) st)) \<noteq> None
          \<or> list_ex (\<lambda>b. 2 < length (pts b)) bs"
    using Cons.prems by (auto simp: band_step_union split: option.splits)
  then show ?case
    using Cons.IH [of "band_step K polygon (pts b) (vs b) (band b) st"] Cons.prems(1) by simp
qed

lemma quantify_all_rings_union:
  assumes "is_polygon_troublesome K polygon tolerance = Inr (h, v)"
    and "bounds (Polygon polygon) = (minx, miny, maxx, maxy)"
    and "\<forall>b\<in>set (zip (snapped tolerance (map snd (gather_all_ring_coords polygon)))
                     (tl (snapped tolerance (map snd (gather_all_ring_coords polygon))))).
           \<not> is_empty (sh_intersection K (Polygon polygon) (Polygon (box minx (fst b) maxx (snd b))))"
    and "\<forall>b\<in>set (zip (snapped tolerance (map fst (gather_all_ring_coords polygon)))
                     (tl (snapped tolerance (map fst (gather_all_ring_coords polygon))))).
           \<not> is_empty (sh_intersection K (Polygon polygon) (Polygon (box (fst b) miny (snd b) maxy)))"
  shows "\<exists>m. quantify_gap_severity K polygon tolerance True = Inr m
           \<and> (h \<longrightarrow> horizontal_union m \<noteq> None) \<and> (v \<longrightarrow> vertical_union m \<noteq> None)
           \<and> (h \<or> v \<longrightarrow> choose_cut polygon m \<noteq> None)"
proof -
  let ?ys = "snapped tolerance (map snd (gather_all_ring_coords polygon))"
  let ?xs = "snapped tolerance (map fst (gather_all_ring_coords polygon))"
  let ?h = "fold (\<lambda>b st. band_step K polygon (horizontal_sweep K polygon ((fst b + snd b) / 2))
                     (sort (map fst (horizontal_sweep K polygon ((fst b + snd b) / 2))))
                     (box minx (fst b) maxx (snd b)) st) (zip ?ys (tl ?ys)) (0, 0, None)"
  let ?v = "fold (\<lambda>b st. band_step K polygon (vertical_sweep K polygon ((fst b + snd b) / 2))
                     (sort (map snd (vertical_sweep K polygon ((fst b + snd b) / 2))))
                     (box (fst b) miny (snd b) maxy) st) (zip ?xs (tl ?xs)) (0, 0, None)"
  let ?m = "\<lparr>max_horizontal_gap = fst (snd ?h), total_horizontal_gap = fst ?h,
             max_vertical_gap = fst (snd ?v), total_vertical_gap = fst ?v,
             combined_gap = fst ?h + fst ?v,
             horizontal_union = snd (snd ?h), vertical_union = snd (snd ?v)\<rparr>"
  have ok: "\<not> (tolerance = 0 \<and> gather_all_ring_coords polygon \<noteq> [])"
    using assms(1) by (auto simp: is_polygon_troublesome_def Let_def split: if_splits)
  have hv: "h = list_ex (\<lambda>b. 2 < length (horizontal_sweep K polygon ((fst b + snd b) / 2))) (zip ?ys (tl ?ys))"
       "v = list_ex (\<lambda>b. 2 < length (vertical_sweep K polygon ((fst b + snd b) / 2))) (zip ?xs (tl ?xs))"
    using assms(1) ok by (auto simp: is_polygon_troublesome_def Let_def split: if_splits)
  have q: "quantify_gap_severity K polygon tolerance True = Inr ?m"
    using ok assms(2) by (simp add: quantify_gap_severity_def Let_def)
  have hu: "h \<Longrightarrow> snd (snd ?h) \<noteq> None"
    using fold_band_step_union [OF assms(3), of "(0, 0, None)"
        "\<lambda>b. horizontal_sweep K polygon ((fst b + snd b) / 2)"
        "\<lambda>b. sort (map fst (horizontal_sweep K polygon ((fst b + snd b) / 2)))"] hv(1)
    by simp
  have vu: "v \<Longrightarrow> snd (snd ?v) \<noteq> None"
    using fold_band_step_union [OF assms(4), of "(0, 0, None)"
        "\<lambda>b. vertical_sweep K polygon ((fst b + snd b) / 2)"
        "\<lambda>b. sort (map snd (vertical_sweep K polygon ((fst b + snd b) / 2)))"] hv(2)
    by simp
  have "h \<or> v \<Longrightarrow> choose_cut polygon ?m \<noteq> None"
    using hu vu by (auto simp: choose_cut_def split: option.splits)
  then show ?thesis
    using q hu vu by (intro exI [of _ ?m]) simp
qed

section \<open>Examples on the box kernel\<close>

text \<open>
  The 10 by 4 rectangle has no trouble; the U shape is troublesome horizontally only; a
  unit cell has no trouble. The first theorems below are the instances of claims C8, C5
  and C7 at these polygons.
\<close>

lemma box_not_empty: "exterior (box x0 y0 x1 y1) \<noteq> []"
  by (simp add: box_def)

lemma rectangle_no_trouble:
  "is_polygon_troublesome box_kernel rectangle_10_4 1 = Inr (False, False)"
  by (simp add: trouble_eval rectangle_10_4_def box_def)

lemma u_shape_trouble:
  "is_polygon_troublesome box_kernel u_shape 1 = Inr (True, False)"
  by (simp add: trouble_eval u_shape_def)

lemma unit_square_no_trouble:
  "is_polygon_troublesome box_kernel (box 0 0 1 1) 1 = Inr (False, False)"
  by (simp add: trouble_eval box_def)

lemma rectangle_convex:
  "length (extract_points_from_intersection
             (sh_intersection box_kernel (boundary rectangle_10_4) (LineString [a, b]))) \<le> 2"
  by (simp add: sweep_eval rectangle_10_4_def box_def)

theorem greedy_partition_returns_input_witness:
  "is_polygon_troublesome box_kernel rectangle_10_4 1 = Inr (False, False)
   \<and> (\<forall>a b. length (extract_points_from_intersection
                      (sh_intersection box_kernel (boundary rectangle_10_4) (LineString [a, b]))) \<le> 2)
   \<and> greedy_partition_rec box_kernel rectangle_10_4 3 10 1 = Inr ([rectangle_10_4], [])
   \<and> greedy_partition box_kernel rectangle_10_4 10 1 = Inr ([rectangle_10_4], [])"
  using greedy_partition_returns_input [OF rectangle_no_trouble, of 10 3] rectangle_convex
    rectangle_no_trouble
  by simp


theorem single_cell_candidates_witness:
  "get_candidate_options box_kernel [(0, 0)] (Some u_shape) = Inr (replicate 4 (single_option (0, 0)))
   \<and> get_candidate_options box_kernel [(0, 0)] None = Inr (replicate 8 (single_option (0, 0)))"
proof -
  have "exterior u_shape \<noteq> []" by (simp add: u_shape_def)
  then show ?thesis
    using single_cell_candidates [of box_kernel u_shape "(0, 0)"]
    by (auto simp: u_shape_trouble)
qed

text \<open>
  Claim C7 at a single cell with its unit square as polygon: eight candidates, not one.
\<close>

theorem single_cell_eight_candidates:
  "get_candidate_options box_kernel [(0, 0)] (Some (box 0 0 1 1)) =
     Inr [single_option (0, 0), single_option (0, 0), single_option (0, 0), single_option (0, 0),
          single_option (0, 0), single_option (0, 0), single_option (0, 0), single_option (0, 0)]
   \<and> cost (single_option (0, 0)) = 0 \<and> turns (single_option (0, 0)) = 0"
  by (simp add: get_candidate_options_def unit_square_no_trouble box_not_empty
        candidate_paths_for_single options_of_paths_def count_turns_def single_option_def
        numeral_eq_Suc)

text \<open>Two unit boxes side by side merge into one box, and merging again changes nothing.\<close>

lemma box_trouble_2_1:
  "is_polygon_troublesome box_kernel (box 0 0 2 1) 1 = Inr (False, False)"
  by (simp add: trouble_eval box_def)

lemma as_box_box: "x0 < x1 \<Longrightarrow> y0 < y1 \<Longrightarrow> as_box (box x0 y0 x1 y1) = Some (x0, y0, x1, y1)"
  by (simp add: as_box_def bounds_def box_def)

lemma merge_step_boxes:
  "merge_step box_kernel 1 (box 1 0 2 1) (Suc 0) (box 0 0 1 1, {}, False)
     = Inr (box 0 0 2 1, {Suc 0}, True)"
  by (simp add: box_not_empty merge_step_def shared_length_def normalise_union_def hypot_axis
      box_kernel_def box_intersection_def box_union_def as_box_box box_meet_def
      boundary_def Let_def box_trouble_2_1 [unfolded box_kernel_def]
      as_box_box [unfolded box_def] box_def [of 0 0 1 1] box_def [of 1 0 2 1])

lemma merge_pass_two_boxes:
  "merge_pass box_kernel 1 [box 0 0 1 1, box 1 0 2 1] = Inr ([box 0 0 2 1], {0, 1}, True)"
  by (simp add: merge_pass_def upt_rec [of 0] upt_rec [of 1] upt_rec [of 2] merge_step_boxes)

lemma merge_pass_one_box:
  "merge_pass box_kernel 1 [box 0 0 2 1] = Inr ([box 0 0 2 1], {0}, False)"
  by (simp add: merge_pass_def upt_rec [of 0] upt_rec [of 1])

lemma merge_two_boxes:
  "merge_partitions box_kernel [box 0 0 1 1, box 1 0 2 1] 1 = Inr [box 0 0 2 1]"
  by (subst merge_partitions.simps, simp add: merge_pass_two_boxes,
      subst merge_partitions.simps, simp add: merge_pass_one_box)

theorem merge_partitions_idempotent_witness:
  "merge_partitions box_kernel [box 0 0 1 1, box 1 0 2 1] 1 = Inr [box 0 0 2 1]
   \<and> merge_partitions box_kernel [box 0 0 2 1] 1 = Inr [box 0 0 2 1]"
  using merge_partitions_idempotent [OF merge_two_boxes] merge_two_boxes by simp

text \<open>
  A square with a small hole near a corner. Both axes are troublesome (the sweeps through
  the hole meet the boundary four times), but the quantifier looks at the bands of the
  exterior coordinates only, whose midlines miss the hole: it finds no union, no cut is
  chosen, and the polygon is returned at depth 0.
\<close>

lemma square_with_hole_trouble:
  "is_polygon_troublesome box_kernel square_with_hole 1 = Inr (True, True)"
  by (simp add: trouble_eval square_with_hole_def)

lemma square_with_hole_quantify:
  "quantify_gap_severity box_kernel square_with_hole 1 False =
     Inr \<lparr>max_horizontal_gap = 0, total_horizontal_gap = 0, max_vertical_gap = 0,
          total_vertical_gap = 0, combined_gap = 0, horizontal_union = None, vertical_union = None\<rparr>"
  by (simp add: quantify_gap_severity_def band_step_def sweep_gaps_def trouble_eval square_with_hole_def)

definition square_with_hole_pass :: pass_record where
  "square_with_hole_pass =
     \<lparr>pass_depth = 0, subject_polygon = square_with_hole,
        metrics = \<lparr>max_horizontal_gap = 0, total_horizontal_gap = 0, max_vertical_gap = 0,
          total_vertical_gap = 0, combined_gap = 0, horizontal_union = None, vertical_union = None\<rparr>,
        cut_line = None, horiz_union = None, vert_union = None\<rparr>"

lemma square_with_hole_no_cut:
  "attempt_cut box_kernel square_with_hole 0 1 = Inr (Leaf square_with_hole_pass)"
  by (simp add: attempt_cut_def square_with_hole_quantify choose_cut_def square_with_hole_pass_def)

lemma square_with_hole_pieces:
  "greedy_partition box_kernel square_with_hole 10 1 = Inr ([square_with_hole], [square_with_hole_pass])"
  unfolding greedy_partition_def
  by (subst greedy_partition_rec.simps) (simp add: square_with_hole_trouble square_with_hole_no_cut)

lemma square_with_hole_traced:
  "greedy_partition_traced box_kernel square_with_hole 0 10 1
     = Inr ([(square_with_hole, 0)], [square_with_hole_pass])"
  by (subst greedy_partition_traced.simps) (simp add: square_with_hole_trouble square_with_hole_no_cut)

text \<open>
  Claim C3 says that every piece returned by \<^verbatim>\<open>greedy_partition\<close> at a depth below
  \<open>max_depth\<close> is troublesome in at most one axis. With \<open>max_depth = 10\<close> and tolerance 1
  the code returns the square with a hole as its only piece, from the call at depth 0, and
  the analyzer reports both axes of that piece troublesome. The partitioner calls
  \<^verbatim>\<open>quantify_gap_severity\<close> with its default candidate source, the exterior ring, while
  the analyzer bands the coordinates of all rings: the quantifier finds no union in either
  axis, so no cut line is chosen. On all rings the quantifier returns a union whenever the
  analyzer reports trouble and the bands meet the polygon (\<open>quantify_all_rings_union\<close>).
\<close>

theorem square_with_hole_returned_troublesome:
  "map_sum id fst (greedy_partition box_kernel square_with_hole 10 1) = Inr [square_with_hole]
   \<and> map_sum id fst (greedy_partition_traced box_kernel square_with_hole 0 10 1)
       = Inr [(square_with_hole, 0)]
   \<and> (0::nat) < 10
   \<and> is_polygon_troublesome box_kernel square_with_hole 1 = Inr (True, True)
   \<and> map_sum id (\<lambda>m. (horizontal_union m, vertical_union m))
         (quantify_gap_severity box_kernel square_with_hole 1 False) = Inr (None, None)"
  by (simp add: square_with_hole_pieces square_with_hole_traced square_with_hole_trouble
      square_with_hole_quantify)

section \<open>Cell distributor (\<^verbatim>\<open>utils/helpers.py\<close>)\<close>

definition get_cell_polygon :: "CellID \<Rightarrow> real \<Rightarrow> polygon" where
  "get_cell_polygon cell_id cell_size =
     (case cell_id of (row, col) \<Rightarrow>
        box (of_int col * cell_size) (of_int row * cell_size)
            ((of_int col + 1) * cell_size) ((of_int row + 1) * cell_size))"

text \<open>
  The inner loop of \<^verbatim>\<open>distribute_cells_to_subclusters\<close> for one cell: the pair
  \<^verbatim>\<open>(best_idx, best_area)\<close> after the loop over the partitions. A partition that is
  false in \<^verbatim>\<open>not part_poly or part_poly.is_empty\<close> is skipped.
\<close>

definition best_partition :: "shapely \<Rightarrow> polygon \<Rightarrow> polygon list \<Rightarrow> nat option \<times> real" where
  "best_partition K cell_poly partition_polygons =
     fold (\<lambda>ip best.
             if exterior (snd ip) = [] then best
             else let area = sh_area K (sh_intersection K (Polygon cell_poly) (Polygon (snd ip)))
                  in if snd best < area then (Some (fst ip), area) else best)
          (enumerate 0 partition_polygons) (None, 0)"

text \<open>
  The output dictionary has the keys \<open>0..n-1\<close>; \<^verbatim>\<open>out[best_idx].append(cell_id)\<close> finds
  its key because \<open>best_idx\<close> is an index of a partition.
\<close>

definition distribute_cells_to_subclusters ::
  "shapely \<Rightarrow> CellID list \<Rightarrow> real \<Rightarrow> polygon list \<Rightarrow> (nat \<rightharpoonup> CellID list)" where
  "distribute_cells_to_subclusters K cell_ids cell_size partition_polygons =
     (let out = (\<lambda>i. if i < length partition_polygons then Some [] else None) in
      if cell_ids = [] \<or> partition_polygons = [] then out
      else fold (\<lambda>cell_id out.
                   case fst (best_partition K (get_cell_polygon cell_id cell_size) partition_polygons) of
                     None \<Rightarrow> out
                   | Some best_idx \<Rightarrow>
                       (case out best_idx of
                          None \<Rightarrow> out
                        | Some cells \<Rightarrow> out(best_idx \<mapsto> cells @ [cell_id])))
                cell_ids out)"

text \<open>The overlap area the claims speak of.\<close>

definition overlap_area :: "shapely \<Rightarrow> polygon \<Rightarrow> polygon \<Rightarrow> real" where
  "overlap_area K cell_poly part_poly = sh_area K (sh_intersection K (Polygon cell_poly) (Polygon part_poly))"

lemma best_partition_snoc:
  "best_partition K cell (parts @ [x]) =
     (let best = best_partition K cell parts in
      if exterior x = [] then best
      else if snd best < overlap_area K cell x then (Some (length parts), overlap_area K cell x) else best)"
  by (simp add: best_partition_def enumerate_append_eq overlap_area_def Let_def)

lemma best_partition_spec:
  "(fst (best_partition K cell parts) = None \<longrightarrow>
       snd (best_partition K cell parts) = 0
       \<and> (\<forall>j<length parts. exterior (parts ! j) \<noteq> [] \<longrightarrow> overlap_area K cell (parts ! j) \<le> 0))
   \<and> (\<forall>i. fst (best_partition K cell parts) = Some i \<longrightarrow>
         i < length parts \<and> exterior (parts ! i) \<noteq> []
         \<and> snd (best_partition K cell parts) = overlap_area K cell (parts ! i)
         \<and> 0 < overlap_area K cell (parts ! i)
         \<and> (\<forall>j<length parts. exterior (parts ! j) \<noteq> [] \<longrightarrow>
               overlap_area K cell (parts ! j) \<le> overlap_area K cell (parts ! i))
         \<and> (\<forall>j<i. exterior (parts ! j) \<noteq> [] \<longrightarrow>
               overlap_area K cell (parts ! j) < overlap_area K cell (parts ! i)))"
proof (induction parts rule: rev_induct)
  case Nil
  show ?case by (simp add: best_partition_def)
next
  case (snoc x parts)
  let ?b = "best_partition K cell parts"
  let ?a = "overlap_area K cell x"
  have nth: "\<And>j. j < length parts \<Longrightarrow> (parts @ [x]) ! j = parts ! j"
    by (simp add: nth_append)
  have last: "(parts @ [x]) ! length parts = x" by simp
  have lt: "\<And>j. j < length (parts @ [x]) \<longleftrightarrow> j < length parts \<or> j = length parts"
    by auto
  show ?case
  proof (cases "exterior x = []")
    case True
    then have b: "best_partition K cell (parts @ [x]) = ?b"
      by (simp add: best_partition_snoc)
    show ?thesis
      unfolding b using snoc.IH True
      by (auto simp: lt nth_append)
  next
    case False
    show ?thesis
    proof (cases "snd ?b < ?a")
      case True
      with False have b: "best_partition K cell (parts @ [x]) = (Some (length parts), ?a)"
        by (simp add: best_partition_snoc Let_def)
      have pos: "0 < ?a"
      proof (cases "fst ?b")
        case None
        with snoc.IH True show ?thesis by simp
      next
        case (Some i)
        with snoc.IH True show ?thesis by auto
      qed
      have below: "overlap_area K cell (parts ! j) < ?a"
        if "j < length parts" "exterior (parts ! j) \<noteq> []" for j
      proof (cases "fst ?b")
        case None
        with snoc.IH that pos show ?thesis by force
      next
        case (Some i)
        with snoc.IH that have "overlap_area K cell (parts ! j) \<le> snd ?b" by auto
        with True show ?thesis by simp
      qed
      show ?thesis
        unfolding b using False pos below
        by (auto simp: lt nth_append less_imp_le)
    next
      case nb: False
      with False have b: "best_partition K cell (parts @ [x]) = ?b"
        by (simp add: best_partition_snoc Let_def)
      show ?thesis
      proof (cases "fst ?b")
        case None
        with snoc.IH nb show ?thesis
          unfolding b by (auto simp: lt nth_append)
      next
        case (Some i)
        with snoc.IH nb show ?thesis
          unfolding b by (auto simp: lt nth_append)
      qed
    qed
  qed
qed

subsection \<open>Properties of the cell distributor\<close>

text \<open>\<open>assigned_to\<close>: the partition that the inner loop picks for a cell.\<close>

definition assigned_to :: "shapely \<Rightarrow> real \<Rightarrow> polygon list \<Rightarrow> nat \<Rightarrow> CellID \<Rightarrow> bool" where
  "assigned_to K cell_size parts i cell_id =
     (fst (best_partition K (get_cell_polygon cell_id cell_size) parts) = Some i)"

lemma count_list_filter:
  "count_list (filter P xs) c = (if P c then count_list xs c else 0)"
  by (induction xs) auto

lemma distribute_fold:
  assumes "\<And>i. out0 i = (if i < length parts then Some (acc i) else None)"
  shows "fold (\<lambda>cell_id out.
                   case fst (best_partition K (get_cell_polygon cell_id cell_size) parts) of
                     None \<Rightarrow> out
                   | Some best_idx \<Rightarrow>
                       (case out best_idx of
                          None \<Rightarrow> out
                        | Some cells \<Rightarrow> out(best_idx \<mapsto> cells @ [cell_id])))
                cell_ids out0 i
         = (if i < length parts
            then Some (acc i @ filter (assigned_to K cell_size parts i) cell_ids) else None)"
  using assms
proof (induction cell_ids arbitrary: out0 acc)
  case Nil
  then show ?case by simp
next
  case (Cons c cs)
  let ?F = "\<lambda>cell_id out.
                   case fst (best_partition K (get_cell_polygon cell_id cell_size) parts) of
                     None \<Rightarrow> out
                   | Some best_idx \<Rightarrow>
                       (case out best_idx of
                          None \<Rightarrow> out
                        | Some cells \<Rightarrow> out(best_idx \<mapsto> cells @ [cell_id]))"
  let ?b = "fst (best_partition K (get_cell_polygon c cell_size) parts)"
  show ?case
  proof (cases ?b)
    case None
    then have "\<not> assigned_to K cell_size parts i c"
      by (simp add: assigned_to_def)
    with None Cons.IH [OF Cons.prems] show ?thesis by simp
  next
    case (Some k)
    then have k: "k < length parts"
      using best_partition_spec [of K "get_cell_polygon c cell_size" parts] by simp
    let ?out1 = "out0(k \<mapsto> acc k @ [c])"
    let ?acc1 = "acc(k := acc k @ [c])"
    have o1: "\<And>i. ?out1 i = (if i < length parts then Some (?acc1 i) else None)"
      using Cons.prems k by simp
    have "?F c out0 = ?out1"
      using Cons.prems [of k] k Some by simp
    then have f1: "fold ?F (c # cs) out0 = fold ?F cs ?out1"
      by simp
    have a: "assigned_to K cell_size parts i c \<longleftrightarrow> i = k"
      using Some by (auto simp: assigned_to_def)
    have r: "fold ?F cs ?out1 i
         = (if i < length parts then Some (?acc1 i @ filter (assigned_to K cell_size parts i) cs) else None)"
      by (rule Cons.IH [OF o1])
    show ?thesis
      unfolding f1 r using a by (cases "i = k") simp_all
  qed
qed

lemma distribute_filter:
  "distribute_cells_to_subclusters K cell_ids cell_size parts i =
     (if i < length parts then Some (filter (assigned_to K cell_size parts i) cell_ids) else None)"
proof (cases "cell_ids = [] \<or> parts = []")
  case True
  then show ?thesis
    by (auto simp: distribute_cells_to_subclusters_def)
next
  case False
  have "\<And>i. (\<lambda>i. if i < length parts then Some [] else None) i
          = (if i < length parts then Some ((\<lambda>_. []) i) else None)" by simp
  from distribute_fold [OF this, of K cell_size cell_ids i] False show ?thesis
    by (simp add: distribute_cells_to_subclusters_def)
qed

text \<open>
  Claim C4. \<^verbatim>\<open>distribute_cells_to_subclusters\<close> returns a list for every partition index.
  Every cell in the list of partition \<open>i\<close> is an input cell whose overlap area with
  partition \<open>i\<close> is positive, maximal over all partitions and strictly larger than that
  of every lower index (ties go to the lowest index); it is in no other partition's list
  and occurs in its list as often as in the input. An input cell that is in no list has
  overlap area zero with every partition. The areas are the geometry library's: they are
  assumed non-negative, and zero against an empty partition polygon (which the loop
  skips).
\<close>

theorem distribute_cells_conservation:
  assumes nonneg0: "\<forall>c\<in>set cell_ids. \<forall>j<length parts.
                    0 \<le> overlap_area K (get_cell_polygon c cell_size) (parts ! j)"
    and empty0: "\<forall>c\<in>set cell_ids. \<forall>j<length parts. exterior (parts ! j) = [] \<longrightarrow>
                    overlap_area K (get_cell_polygon c cell_size) (parts ! j) = 0"
    and i: "i < length parts"
    and out: "distribute_cells_to_subclusters K cell_ids cell_size parts = out"
  shows "dom out = {0..<length parts}
     \<and> (\<exists>cells. out i = Some cells
          \<and> (\<forall>c\<in>set cells. c \<in> set cell_ids
                \<and> 0 < overlap_area K (get_cell_polygon c cell_size) (parts ! i)
                \<and> (\<forall>j<length parts. overlap_area K (get_cell_polygon c cell_size) (parts ! j)
                                      \<le> overlap_area K (get_cell_polygon c cell_size) (parts ! i))
                \<and> (\<forall>j<i. overlap_area K (get_cell_polygon c cell_size) (parts ! j)
                           < overlap_area K (get_cell_polygon c cell_size) (parts ! i))
                \<and> (\<forall>j<length parts. j \<noteq> i \<longrightarrow> c \<notin> set (the (out j)))
                \<and> count_list cells c = count_list cell_ids c))
     \<and> (\<forall>c\<in>set cell_ids. (\<forall>j<length parts. c \<notin> set (the (out j))) \<longrightarrow>
            (\<forall>j<length parts. overlap_area K (get_cell_polygon c cell_size) (parts ! j) = 0))"
proof -
  let ?A = "\<lambda>c j. overlap_area K (get_cell_polygon c cell_size) (parts ! j)"
  have o: "\<And>j. out j = (if j < length parts then Some (filter (assigned_to K cell_size parts j) cell_ids) else None)"
    using out distribute_filter by blast
  have Apos: "\<And>c j. c \<in> set cell_ids \<Longrightarrow> j < length parts \<Longrightarrow> 0 \<le> ?A c j"
    using nonneg0 by blast
  have A0: "\<And>c j. c \<in> set cell_ids \<Longrightarrow> j < length parts \<Longrightarrow> exterior (parts ! j) = [] \<Longrightarrow> ?A c j = 0"
    using empty0 by blast
  have d: "dom out = {0..<length parts}"
    using o by (auto simp: dom_def)
  have oi: "out i = Some (filter (assigned_to K cell_size parts i) cell_ids)"
    using o i by simp
  have p: "c \<in> set cell_ids
         \<and> 0 < ?A c i \<and> (\<forall>j<length parts. ?A c j \<le> ?A c i) \<and> (\<forall>j<i. ?A c j < ?A c i)
         \<and> (\<forall>j<length parts. j \<noteq> i \<longrightarrow> c \<notin> set (the (out j)))
         \<and> count_list (filter (assigned_to K cell_size parts i) cell_ids) c = count_list cell_ids c"
    if c: "c \<in> set (filter (assigned_to K cell_size parts i) cell_ids)" for c
  proof -
    from c have cin: "c \<in> set cell_ids" and a: "assigned_to K cell_size parts i c" by simp_all
    note s = best_partition_spec [of K "get_cell_polygon c cell_size" parts]
    from a have b: "fst (best_partition K (get_cell_polygon c cell_size) parts) = Some i"
      by (simp add: assigned_to_def)
    from s b have pos: "0 < ?A c i"
      and mx: "\<forall>j<length parts. exterior (parts ! j) \<noteq> [] \<longrightarrow> ?A c j \<le> ?A c i"
      and fs: "\<forall>j<i. exterior (parts ! j) \<noteq> [] \<longrightarrow> ?A c j < ?A c i"
      by auto
    have mx': "\<forall>j<length parts. ?A c j \<le> ?A c i"
    proof (intro allI impI)
      fix j assume "j < length parts"
      with mx A0 [OF cin, of j] pos show "?A c j \<le> ?A c i"
        by (cases "exterior (parts ! j) = []") auto
    qed
    have fs': "\<forall>j<i. ?A c j < ?A c i"
    proof (intro allI impI)
      fix j assume "j < i"
      with fs A0 [OF cin, of j] pos i show "?A c j < ?A c i"
        by (cases "exterior (parts ! j) = []") auto
    qed
    have other: "\<forall>j<length parts. j \<noteq> i \<longrightarrow> c \<notin> set (the (out j))"
      using o b by (auto simp: assigned_to_def)
    have cnt: "count_list (filter (assigned_to K cell_size parts i) cell_ids) c = count_list cell_ids c"
      using a by (simp add: count_list_filter)
    from cin pos mx' fs' other cnt show ?thesis by blast
  qed
  have dropped: "\<forall>j<length parts. ?A c j = 0"
    if cin: "c \<in> set cell_ids" and no: "\<forall>j<length parts. c \<notin> set (the (out j))" for c
  proof -
    note s = best_partition_spec [of K "get_cell_polygon c cell_size" parts]
    have "fst (best_partition K (get_cell_polygon c cell_size) parts) = None"
    proof (cases "fst (best_partition K (get_cell_polygon c cell_size) parts)")
      case None
      then show ?thesis .
    next
      case (Some k)
      with s have "k < length parts" by simp
      moreover from Some cin have "c \<in> set (the (out k))"
        using o \<open>k < length parts\<close> by (simp add: assigned_to_def)
      ultimately show ?thesis using no by blast
    qed
    with s have le: "\<forall>j<length parts. exterior (parts ! j) \<noteq> [] \<longrightarrow> ?A c j \<le> 0" by simp
    show ?thesis
    proof (intro allI impI)
      fix j assume "j < length parts"
      with le A0 [OF cin, of j] Apos [OF cin, of j] show "?A c j = 0"
        by (cases "exterior (parts ! j) = []") auto
    qed
  qed
  from d oi p dropped show ?thesis by blast
qed

text \<open>
  An instance: three unit cells and two boxes. Cell (0, 1) overlaps both boxes by one half
  and goes to the first; cell (5, 5) overlaps neither and is dropped.
\<close>

definition demo_cells :: "CellID list" where
  "demo_cells = [(0, 0), (0, 1), (5, 5)]"

definition demo_parts :: "polygon list" where
  "demo_parts = [box 0 0 (3 / 2) 1, box (3 / 2) 0 3 1]"

lemmas overlap_eval =
  overlap_area_def get_cell_polygon_def box_kernel_def box_intersection_def as_box_box
  box_meet_def polygon_area_def Let_def

lemma demo_overlaps:
  "overlap_area box_kernel (get_cell_polygon (0, 0) 1) (box 0 0 (3 / 2) 1) = 1"
  "overlap_area box_kernel (get_cell_polygon (0, 0) 1) (box (3 / 2) 0 3 1) = 0"
  "overlap_area box_kernel (get_cell_polygon (0, 1) 1) (box 0 0 (3 / 2) 1) = 1 / 2"
  "overlap_area box_kernel (get_cell_polygon (0, 1) 1) (box (3 / 2) 0 3 1) = 1 / 2"
  "overlap_area box_kernel (get_cell_polygon (5, 5) 1) (box 0 0 (3 / 2) 1) = 0"
  "overlap_area box_kernel (get_cell_polygon (5, 5) 1) (box (3 / 2) 0 3 1) = 0"
  by (simp_all add: overlap_eval, simp_all add: box_def)

lemma demo_best:
  "fst (best_partition box_kernel (get_cell_polygon (0, 0) 1) demo_parts) = Some 0"
  "fst (best_partition box_kernel (get_cell_polygon (0, 1) 1) demo_parts) = Some 0"
  "fst (best_partition box_kernel (get_cell_polygon (5, 5) 1) demo_parts) = None"
  unfolding best_partition_def overlap_area_def [symmetric] demo_parts_def
  by (simp_all add: enumerate_eq_zip box_not_empty demo_overlaps upt_rec [of 0] upt_rec [of 1] upt_rec [of 2])

lemma demo_distribute:
  "distribute_cells_to_subclusters box_kernel demo_cells 1 demo_parts 0 = Some [(0, 0), (0, 1)]"
  "distribute_cells_to_subclusters box_kernel demo_cells 1 demo_parts 1 = Some []"
  by (simp_all add: distribute_filter assigned_to_def demo_best demo_cells_def, simp_all add: demo_parts_def)

theorem distribute_cells_conservation_witness:
  "distribute_cells_to_subclusters box_kernel demo_cells 1 demo_parts 0 = Some [(0, 0), (0, 1)]
   \<and> distribute_cells_to_subclusters box_kernel demo_cells 1 demo_parts 1 = Some []
   \<and> dom (distribute_cells_to_subclusters box_kernel demo_cells 1 demo_parts) = {0..<2}
   \<and> overlap_area box_kernel (get_cell_polygon (0, 1) 1) (demo_parts ! 1)
       \<le> overlap_area box_kernel (get_cell_polygon (0, 1) 1) (demo_parts ! 0)
   \<and> overlap_area box_kernel (get_cell_polygon (5, 5) 1) (demo_parts ! 0) = 0
   \<and> overlap_area box_kernel (get_cell_polygon (5, 5) 1) (demo_parts ! 1) = 0"
proof -
  have h1: "\<forall>c\<in>set demo_cells. \<forall>j<length demo_parts.
              0 \<le> overlap_area box_kernel (get_cell_polygon c 1) (demo_parts ! j)"
    by (auto simp: demo_cells_def demo_parts_def less_Suc_eq numeral_2_eq_2 demo_overlaps)
  have h2: "\<forall>c\<in>set demo_cells. \<forall>j<length demo_parts. exterior (demo_parts ! j) = [] \<longrightarrow>
              overlap_area box_kernel (get_cell_polygon c 1) (demo_parts ! j) = 0"
    by (auto simp: demo_cells_def demo_parts_def less_Suc_eq numeral_2_eq_2 box_not_empty)
  have h3: "0 < length demo_parts" by (simp add: demo_parts_def)
  have len: "length demo_parts = 2" by (simp add: demo_parts_def)
  have in5: "(5, 5) \<in> set demo_cells" and in1: "(0, 1) \<in> set demo_cells"
    by (simp_all add: demo_cells_def)
  note t = distribute_cells_conservation [OF h1 h2 h3 refl]
  let ?out = "distribute_cells_to_subclusters box_kernel demo_cells 1 demo_parts"
  have two: "\<And>j. j < length demo_parts \<longleftrightarrow> j = 0 \<or> j = 1"
    unfolding len by auto
  from t [THEN conjunct1] have d: "dom ?out = {0..<2}"
    unfolding len .
  from t [THEN conjunct2, THEN conjunct1] obtain cells where c0: "?out 0 = Some cells"
    and al: "\<forall>c\<in>set cells. c \<in> set demo_cells
                \<and> 0 < overlap_area box_kernel (get_cell_polygon c 1) (demo_parts ! 0)
                \<and> (\<forall>j<length demo_parts. overlap_area box_kernel (get_cell_polygon c 1) (demo_parts ! j)
                                      \<le> overlap_area box_kernel (get_cell_polygon c 1) (demo_parts ! 0))
                \<and> (\<forall>j<0. overlap_area box_kernel (get_cell_polygon c 1) (demo_parts ! j)
                           < overlap_area box_kernel (get_cell_polygon c 1) (demo_parts ! 0))
                \<and> (\<forall>j<length demo_parts. j \<noteq> 0 \<longrightarrow> c \<notin> set (the (?out j)))
                \<and> count_list cells c = count_list demo_cells c"
    by (elim exE conjE)
  from c0 demo_distribute(1) have "(0, 1) \<in> set cells" by auto
  from bspec [OF al this]
  have "\<forall>j<length demo_parts. overlap_area box_kernel (get_cell_polygon (0, 1) 1) (demo_parts ! j)
            \<le> overlap_area box_kernel (get_cell_polygon (0, 1) 1) (demo_parts ! 0)"
    by (elim conjE)
  then have tie: "overlap_area box_kernel (get_cell_polygon (0, 1) 1) (demo_parts ! 1)
       \<le> overlap_area box_kernel (get_cell_polygon (0, 1) 1) (demo_parts ! 0)"
    unfolding len by simp
  have "\<forall>j<length demo_parts. (5, 5) \<notin> set (the (?out j))"
    unfolding two using demo_distribute by simp
  with bspec [OF t [THEN conjunct2, THEN conjunct2] in5]
  have "\<forall>j<length demo_parts. overlap_area box_kernel (get_cell_polygon (5, 5) 1) (demo_parts ! j) = 0"
    by (rule mp)
  then have dropped: "overlap_area box_kernel (get_cell_polygon (5, 5) 1) (demo_parts ! 0) = 0"
    "overlap_area box_kernel (get_cell_polygon (5, 5) 1) (demo_parts ! 1) = 0"
    unfolding len by simp_all
  show ?thesis
    using demo_distribute d tie dropped by simp
qed

section \<open>Turn-penalty adjustment in double precision\<close>

text \<open>
  Whether a turn penalty survives its addition to a cost depends on the rounding of that
  addition, which the exact reading of \<^const>\<open>adjust_candidate_options\<close> leaves out. This
  section reads each float operation of \<^verbatim>\<open>adjust_candidate_options\<close> as the exact
  operation followed by a rounding function \<open>rnd\<close>: the subtraction of the tolerance test,
  the conversion of the integer \<^verbatim>\<open>max(0, cand.turns - min_turns)\<close> to a float, the
  product with \<^verbatim>\<open>penalty\<close> and the sum \<^verbatim>\<open>cand.cost + extra\<close>. \<^verbatim>\<open>abs\<close> and the
  comparison with \<^verbatim>\<open>tol\<close> are exact on floats. When \<^verbatim>\<open>penalty\<close> is a Python integer, as
  the 1 that \<^verbatim>\<open>held_karp\<close> passes, the product is an exact integer that is converted when
  it is added; that is the same value as long as the integer
  \<^verbatim>\<open>max(0, cand.turns - min_turns)\<close> is a float.

  \<open>extra_float\<close> is the value of the variable \<^verbatim>\<open>extra\<close> of the inner loop, for the
  candidate \<open>cand\<close> of the partition \<open>part\<close>.
\<close>

definition extra_float ::
  "(real \<Rightarrow> real) \<Rightarrow> real \<Rightarrow> real \<Rightarrow> CandidateOption list \<Rightarrow> CandidateOption \<Rightarrow> real" where
  "extra_float rnd penalty tol part cand =
     (let same_cost_turns = map turns (filter (\<lambda>c. \<bar>rnd (cost c - cost cand)\<bar> < tol) part);
          min_turns = (if same_cost_turns \<noteq> [] then min_list same_cost_turns else turns cand)
      in rnd (penalty * rnd (of_int (max 0 (turns cand - min_turns)))))"

definition adjust_candidate_options_float ::
  "(real \<Rightarrow> real) \<Rightarrow> CandidateOption list list \<Rightarrow> real \<Rightarrow> real \<Rightarrow> CandidateOption list list" where
  "adjust_candidate_options_float rnd candidate_options penalty tol =
     map (\<lambda>partition.
       map (\<lambda>cand.
         let extra = extra_float rnd penalty tol partition cand
         in \<lparr>entry = entry cand, exit = exit cand, cost = rnd (cost cand + extra),
             turns = turns cand, path = path cand\<rparr>) partition) candidate_options"

text \<open>
  Round to nearest, ties to even, on the doubles of the normal range: a non-zero real \<open>x\<close>
  with \<open>2 ^ e \<le> \<bar>x\<bar> < 2 ^ (e + 1)\<close> is rounded to a multiple of \<open>2 ^ (e - 52)\<close>, the spacing of
  the doubles there. Overflow and subnormal numbers are outside the model.
\<close>

definition binary64 :: "real \<Rightarrow> real" where
  "binary64 x = (if x = 0 then 0 else
     let ulp = 2 powr (of_int \<lfloor>log 2 \<bar>x\<bar>\<rfloor> - 52)
     in of_int (py_round (x / ulp)) * ulp)"

lemma adjust_candidate_options_exact:
  "adjust_candidate_options_float (\<lambda>x. x) candidate_options penalty tol
     = adjust_candidate_options candidate_options penalty tol"
  by (simp add: adjust_candidate_options_float_def adjust_candidate_options_def extra_float_def)

subsection \<open>Rounding is monotone\<close>





lemma binade:
  assumes "0 < x"
  shows "2 powr of_int \<lfloor>log 2 x\<rfloor> \<le> x" and "x < 2 powr (of_int \<lfloor>log 2 x\<rfloor> + 1)"
  using floor_log_eq_powr_iff [of x 2 "\<lfloor>log 2 x\<rfloor>"] assms by simp_all





lemma binary64_zero: "binary64 0 = 0"
  by (simp add: binary64_def)


text \<open>The rounding error is at most half a unit in the last place, which is at most \<open>\<bar>x\<bar> / 2 ^ 53\<close>.\<close>

lemma py_round_error: "\<bar>of_int (py_round x) - x\<bar> \<le> 1 / 2"
  unfolding py_round_def Let_def by (auto simp: abs_le_iff)

lemma binary64_error: "\<bar>binary64 x - x\<bar> \<le> \<bar>x\<bar> / 2 ^ 53"
proof (cases "x = 0")
  case True
  then show ?thesis by (simp add: binary64_zero)
next
  case False
  let ?e = "of_int \<lfloor>log 2 \<bar>x\<bar>\<rfloor> :: real"
  let ?u = "2 powr (?e - 52) :: real"
  have u: "0 < ?u" by simp
  have "2 powr 52 * ?u = 2 powr (52 + (?e - 52))"
    by (rule powr_add [symmetric])
  moreover have "52 + (?e - 52) = ?e"
    by simp
  ultimately have "2 powr 52 * ?u = 2 powr ?e"
    by (simp only:)
  then have "2 ^ 52 * ?u \<le> \<bar>x\<bar>"
    using binade(1) [of "\<bar>x\<bar>"] False by simp
  then have ub: "?u / 2 \<le> \<bar>x\<bar> / 2 ^ 53" by simp
  have "binary64 x - x = (of_int (py_round (x / ?u)) - x / ?u) * ?u"
    using False u by (simp add: binary64_def Let_def left_diff_distrib)
  then have "\<bar>binary64 x - x\<bar> = \<bar>of_int (py_round (x / ?u)) - x / ?u\<bar> * ?u"
    using u by (simp add: abs_mult)
  also have "\<dots> \<le> 1 / 2 * ?u"
    using py_round_error [of "x / ?u"] u by (intro mult_right_mono) simp_all
  finally show ?thesis using ub by simp
qed

subsection \<open>The penalty under rounding\<close>










end
